theory Spec2Isabelle
  imports Complex_Main "HOL-Library.Multiset"
begin

section \<open>Python values used by the workforce manager\<close>

text \<open>
  The exceptions the source can raise: \<open>d[k]\<close> on a missing key, \<open>xs.remove(x)\<close> on a
  missing element, and true division by zero.
\<close>

datatype error = KeyError | ValueError | ZeroDivisionError

text \<open>
  A Python \<open>dict\<close> keeps insertion order and \<open>values()\<close> is read in that order, so a
  dictionary is an association list: assignment to a present key overwrites in place,
  assignment to a new key appends, \<open>del\<close> drops the entry.
\<close>

type_synonym ('k, 'v) dict = "('k \<times> 'v) list"

definition dict_get :: "('k, 'v) dict \<Rightarrow> 'k \<Rightarrow> 'v option" where
  "dict_get d k = map_of d k"

fun dict_set :: "('k, 'v) dict \<Rightarrow> 'k \<Rightarrow> 'v \<Rightarrow> ('k, 'v) dict" where
  "dict_set [] k v = [(k, v)]"
| "dict_set ((k', v') # d) k v =
     (if k' = k then (k, v) # d else (k', v') # dict_set d k v)"

definition dict_del :: "('k, 'v) dict \<Rightarrow> 'k \<Rightarrow> ('k, 'v) dict" where
  "dict_del d k = filter (\<lambda>kv. fst kv \<noteq> k) d"

definition dict_keys :: "('k, 'v) dict \<Rightarrow> 'k list" where
  "dict_keys d = map fst d"

definition dict_values :: "('k, 'v) dict \<Rightarrow> 'v list" where
  "dict_values d = map snd d"

text \<open>\<open>xs.remove(x)\<close>: drops the first occurrence, raises \<open>ValueError\<close> when there is none.\<close>

definition list_remove :: "'a \<Rightarrow> 'a list \<Rightarrow> error + 'a list" where
  "list_remove x xs = (if x \<in> set xs then Inr (remove1 x xs) else Inl ValueError)"

text \<open>
  \<open>max(xs, key=f)\<close> and \<open>min(xs, key=f)\<close> on a non-empty list: the first element that
  reaches the extreme key wins, because the running best is replaced only on a strict
  improvement.
\<close>

fun py_max_by :: "('a \<Rightarrow> 'b::linorder) \<Rightarrow> 'a \<Rightarrow> 'a list \<Rightarrow> 'a" where
  "py_max_by f best [] = best"
| "py_max_by f best (x # xs) = py_max_by f (if f best < f x then x else best) xs"

fun py_min_by :: "('a \<Rightarrow> 'b::linorder) \<Rightarrow> 'a \<Rightarrow> 'a list \<Rightarrow> 'a" where
  "py_min_by f best [] = best"
| "py_min_by f best (x # xs) = py_min_by f (if f x < f best then x else best) xs"

text \<open>Truthiness of an \<open>Optional[str]\<close>: \<open>None\<close> and the empty string are false.\<close>

fun truthy :: "string option \<Rightarrow> bool" where
  "truthy None = False"
| "truthy (Some s) = (s \<noteq> [])"

section \<open>Entity model\<close>

text \<open>
  The dataclasses \<open>Task\<close> and \<open>Agent\<close>, field by field. An object is identified with
  the registry entry that holds it: the manager reaches tasks and agents only through its
  two dictionaries, and every object is stored under its own id. Each object has its own
  lists and dictionaries (no list is shared between two agents or two tasks).
\<close>

datatype TaskStatus = PENDING | IN_PROGRESS | COMPLETED | FAILED | CANCELLED

datatype AgentRole = WORKER | SUPERVISOR | COORDINATOR | SPECIALIST

record Task =
  task_id :: string
  description :: string
  requirements :: "string list"
  priority :: int
  status :: TaskStatus
  assigned_agent :: "string option"
  result :: "string option"
  dependencies :: "string list"
  metadata :: "(string, string option) dict"

text \<open>
  The counters of \<open>performance_metrics\<close> are Python numbers; the quotient
  \<open>successful / total\<close> is modelled as an exact rational.
\<close>

record Agent =
  agent_id :: string
  name :: string
  role :: AgentRole
  capabilities :: "string list"
  max_concurrent_tasks :: int
  current_tasks :: "string list"
  performance_metrics :: "(string, rat) dict"
  is_active :: bool

section \<open>Assignment strategies\<close>

text \<open>
  The three strategy classes. Round-robin carries its cursor \<open>last_assigned_index\<close>.
  A candidate is a pair of the registry key under which the agent object lives and the
  object's current value: the key stands for the object reference that the source passes
  around and later mutates.
\<close>

datatype WorkforceStrategy =
    RoundRobinStrategy int
  | CapabilityBasedStrategy
  | PriorityBasedStrategy

definition has_capabilities :: "Task \<Rightarrow> Agent \<Rightarrow> bool" where
  "has_capabilities task agent =
     list_all (\<lambda>req. req \<in> set (capabilities agent)) (requirements task)"

definition success_rate_of :: "Agent \<Rightarrow> rat" where
  "success_rate_of a =
     (case dict_get (performance_metrics a) ''success_rate'' of None \<Rightarrow> 0 | Some r \<Rightarrow> r)"

fun assign_task ::
  "WorkforceStrategy \<Rightarrow> Task \<Rightarrow> (string \<times> Agent) list
     \<Rightarrow> (string \<times> Agent) option \<times> WorkforceStrategy" where
  "assign_task (RoundRobinStrategy last_assigned_index) task available_agents =
     (if available_agents = [] then (None, RoundRobinStrategy last_assigned_index)
      else
        let i = (last_assigned_index + 1) mod int (length available_agents)
        in (Some (available_agents ! nat i), RoundRobinStrategy i))"
| "assign_task CapabilityBasedStrategy task available_agents =
     (case filter (\<lambda>ka. has_capabilities task (snd ka)) available_agents of
        [] \<Rightarrow> (None, CapabilityBasedStrategy)
      | a # suitable \<Rightarrow>
          (Some (py_max_by (\<lambda>ka. success_rate_of (snd ka)) a suitable),
           CapabilityBasedStrategy))"
| "assign_task PriorityBasedStrategy task available_agents =
     (case filter (\<lambda>ka. has_capabilities task (snd ka)
                        \<and> int (length (current_tasks (snd ka))) < max_concurrent_tasks (snd ka))
             available_agents of
        [] \<Rightarrow> (None, PriorityBasedStrategy)
      | a # suitable \<Rightarrow>
          (Some (py_min_by (\<lambda>ka. length (current_tasks (snd ka))) a suitable),
           PriorityBasedStrategy))"

section \<open>Event bus\<close>

text \<open>
  A handler is an opaque callable of the caller. It is modelled by a name and by what it
  does when called with an event: return normally (\<open>None\<close>) or raise an \<open>Exception\<close>
  with a message. Handlers do not call back into the manager, and what they raise is an
  \<open>Exception\<close> (the \<open>except\<close> clause of the bus does not catch \<open>KeyboardInterrupt\<close>
  or \<open>SystemExit\<close>).
  What the bus does is recorded in a trace: every call of \<open>_emit_event\<close>, every handler
  invocation, and every line the \<open>except\<close> branch prints.
\<close>

type_synonym event_data = "(string, string option) dict"

record Handler =
  handler_name :: string
  behaviour :: "string \<Rightarrow> event_data \<Rightarrow> string option"

datatype effect =
    Emitted string event_data
  | Invoked string string event_data
  | Printed string

section \<open>The manager\<close>

record WorkforceManager =
  agents :: "(string, Agent) dict"
  tasks :: "(string, Task) dict"
  task_queue :: "string list"
  strategy :: WorkforceStrategy
  event_handlers :: "(string, Handler list) dict"
  trace :: "effect list"

text \<open>
  A method either returns a value or raises; in both cases the mutations made so far
  stay, so every method returns the manager it leaves behind.
\<close>

type_synonym 'a res = "(error + 'a) \<times> WorkforceManager"

definition new_manager :: "WorkforceStrategy option \<Rightarrow> WorkforceManager" where
  "new_manager strat =
     \<lparr> agents = [], tasks = [], task_queue = [],
       strategy = (case strat of None \<Rightarrow> CapabilityBasedStrategy | Some st \<Rightarrow> st),
       event_handlers = [], trace = [] \<rparr>"

definition add_event_handler :: "string \<Rightarrow> Handler \<Rightarrow> WorkforceManager \<Rightarrow> WorkforceManager" where
  "add_event_handler event_type handler s =
     (case dict_get (event_handlers s) event_type of
        None \<Rightarrow> s\<lparr>event_handlers := dict_set (event_handlers s) event_type [handler]\<rparr>
      | Some hs \<Rightarrow> s\<lparr>event_handlers := dict_set (event_handlers s) event_type (hs @ [handler])\<rparr>)"

definition call_handler :: "string \<Rightarrow> event_data \<Rightarrow> Handler \<Rightarrow> effect list" where
  "call_handler event_type data h =
     (case behaviour h event_type data of
        None \<Rightarrow> [Invoked (handler_name h) event_type data]
      | Some msg \<Rightarrow> [Invoked (handler_name h) event_type data,
                     Printed (''Error in event handler: '' @ msg)])"

definition emit_event :: "string \<Rightarrow> event_data \<Rightarrow> WorkforceManager \<Rightarrow> WorkforceManager" where
  "emit_event event_type data s =
     (case dict_get (event_handlers s) event_type of
        None \<Rightarrow> s\<lparr>trace := trace s @ [Emitted event_type data]\<rparr>
      | Some hs \<Rightarrow>
          s\<lparr>trace := trace s @ Emitted event_type data
                         # concat (map (call_handler event_type data) hs)\<rparr>)"

definition register_agent :: "Agent \<Rightarrow> WorkforceManager \<Rightarrow> unit res" where
  "register_agent agent s =
     (Inr (),
      emit_event ''agent_registered'' [(''agent_id'', Some (agent_id agent))]
        (s\<lparr>agents := dict_set (agents s) (agent_id agent) agent\<rparr>))"

definition get_available_agents :: "WorkforceManager \<Rightarrow> (string \<times> Agent) list" where
  "get_available_agents s =
     filter (\<lambda>ka. is_active (snd ka)
                  \<and> int (length (current_tasks (snd ka))) < max_concurrent_tasks (snd ka))
       (agents s)"

text \<open>
  \<open>_assign_task_to_agent(task, agent)\<close>: \<open>task\<close> is the object stored under queue id
  \<open>tid\<close>, \<open>agent\<close> the object stored under key \<open>k\<close>; both are mutated in place.
\<close>

definition assign_task_to_agent ::
  "string \<Rightarrow> Task \<Rightarrow> string \<Rightarrow> Agent \<Rightarrow> WorkforceManager \<Rightarrow> WorkforceManager" where
  "assign_task_to_agent tid task k agent s =
     emit_event ''task_assigned''
       [(''task_id'', Some (task_id task)), (''agent_id'', Some (agent_id agent))]
       (s\<lparr>tasks := dict_set (tasks s) tid
                     (task\<lparr>assigned_agent := Some (agent_id agent), status := IN_PROGRESS\<rparr>),
          agents := dict_set (agents s) k
                      (agent\<lparr>current_tasks := current_tasks agent @ [task_id task]\<rparr>)\<rparr>)"

text \<open>
  The first loop of \<open>_process_task_queue\<close>. The queue itself is not changed while it is
  walked, so the loop runs over the list as it was on entry; the tasks, the agents and
  the strategy are read from the current state at every step.
\<close>

fun process_task_queue_loop ::
  "string list \<Rightarrow> string list \<Rightarrow> WorkforceManager \<Rightarrow> (error + string list) \<times> WorkforceManager" where
  "process_task_queue_loop [] processed_tasks s = (Inr processed_tasks, s)"
| "process_task_queue_loop (tid # queue) processed_tasks s =
     (case dict_get (tasks s) tid of
        None \<Rightarrow> (Inl KeyError, s)
      | Some task \<Rightarrow>
          if status task \<noteq> PENDING
          then process_task_queue_loop queue (processed_tasks @ [tid]) s
          else
            (case assign_task (strategy s) task (get_available_agents s) of
               (None, strat) \<Rightarrow>
                 process_task_queue_loop queue processed_tasks (s\<lparr>strategy := strat\<rparr>)
             | (Some (k, agent), strat) \<Rightarrow>
                 process_task_queue_loop queue (processed_tasks @ [tid])
                   (assign_task_to_agent tid task k agent (s\<lparr>strategy := strat\<rparr>))))"

fun remove_processed :: "string list \<Rightarrow> WorkforceManager \<Rightarrow> unit res" where
  "remove_processed [] s = (Inr (), s)"
| "remove_processed (tid # processed_tasks) s =
     (case list_remove tid (task_queue s) of
        Inl e \<Rightarrow> (Inl e, s)
      | Inr q \<Rightarrow> remove_processed processed_tasks (s\<lparr>task_queue := q\<rparr>))"

definition process_task_queue :: "WorkforceManager \<Rightarrow> unit res" where
  "process_task_queue s =
     (case process_task_queue_loop (task_queue s) [] s of
        (Inl e, s') \<Rightarrow> (Inl e, s')
      | (Inr processed_tasks, s') \<Rightarrow> remove_processed processed_tasks s')"

definition dependency_met :: "WorkforceManager \<Rightarrow> string \<Rightarrow> bool" where
  "dependency_met s dep_id =
     (case dict_get (tasks s) dep_id of None \<Rightarrow> False | Some t \<Rightarrow> status t = COMPLETED)"

definition submit_task :: "Task \<Rightarrow> WorkforceManager \<Rightarrow> bool res" where
  "submit_task task s =
     (if \<not> list_all (dependency_met s) (dependencies task) then (Inr False, s)
      else
        (case process_task_queue
                (emit_event ''task_submitted'' [(''task_id'', Some (task_id task))]
                   (s\<lparr>tasks := dict_set (tasks s) (task_id task) task,
                      task_queue := task_queue s @ [task_id task]\<rparr>)) of
           (Inl e, s') \<Rightarrow> (Inl e, s')
         | (Inr _, s') \<Rightarrow> (Inr True, s')))"

text \<open>
  \<open>_update_agent_metrics\<close> on the agent object. A metrics dictionary that has
  \<open>total_tasks\<close> but lacks \<open>successful_tasks\<close> raises \<open>KeyError\<close> after the total was
  already incremented.
\<close>

definition py_truediv :: "rat \<Rightarrow> rat \<Rightarrow> error + rat" where
  "py_truediv a b = (if b = 0 then Inl ZeroDivisionError else Inr (a / b))"

definition update_agent_metrics :: "bool \<Rightarrow> Agent \<Rightarrow> (error + unit) \<times> Agent" where
  "update_agent_metrics success agent =
     (let m0 = performance_metrics agent;
          m1 = (if dict_get m0 ''total_tasks'' = None
                then dict_set (dict_set m0 ''total_tasks'' 0) ''successful_tasks'' 0
                else m0)
      in case dict_get m1 ''total_tasks'' of
           None \<Rightarrow> (Inl KeyError, agent\<lparr>performance_metrics := m1\<rparr>)
         | Some total0 \<Rightarrow>
             let m2 = dict_set m1 ''total_tasks'' (total0 + 1)
             in case dict_get m2 ''successful_tasks'' of
                  None \<Rightarrow> (Inl KeyError, agent\<lparr>performance_metrics := m2\<rparr>)
                | Some successful0 \<Rightarrow>
                    let m3 = (if success
                              then dict_set m2 ''successful_tasks'' (successful0 + 1)
                              else m2);
                        total = total0 + 1;
                        successful = (if success then successful0 + 1 else successful0)
                    in case (if total > 0 then py_truediv successful total else Inr 0) of
                         Inl e \<Rightarrow> (Inl e, agent\<lparr>performance_metrics := m3\<rparr>)
                       | Inr rate \<Rightarrow>
                           (Inr (),
                            agent\<lparr>performance_metrics := dict_set m3 ''success_rate'' rate\<rparr>))"

text \<open>
  The block shared by \<open>complete_task\<close> and \<open>fail_task\<close>:
  \<open>if task.assigned_agent: agent = self.agents[...]; agent.current_tasks.remove(task_id);
  self._update_agent_metrics(agent, success)\<close>.
\<close>

definition release_agent :: "string \<Rightarrow> Task \<Rightarrow> bool \<Rightarrow> WorkforceManager \<Rightarrow> unit res" where
  "release_agent tid task success s =
     (case assigned_agent task of
        None \<Rightarrow> (Inr (), s)
      | Some aid \<Rightarrow>
          if aid = [] then (Inr (), s)
          else
            (case dict_get (agents s) aid of
               None \<Rightarrow> (Inl KeyError, s)
             | Some agent \<Rightarrow>
                 (case list_remove tid (current_tasks agent) of
                    Inl e \<Rightarrow> (Inl e, s)
                  | Inr ct \<Rightarrow>
                      (case update_agent_metrics success (agent\<lparr>current_tasks := ct\<rparr>) of
                         (r, agent') \<Rightarrow>
                           (r, s\<lparr>agents := dict_set (agents s) aid agent'\<rparr>)))))"

definition dependents_ready :: "WorkforceManager \<Rightarrow> Task \<Rightarrow> bool" where
  "dependents_ready s task =
     list_all (\<lambda>dep_id. case dict_get (tasks s) dep_id of
                           None \<Rightarrow> True
                         | Some t \<Rightarrow> status t = COMPLETED)
       (dependencies task)"

definition process_dependent_step :: "string \<Rightarrow> Task \<Rightarrow> WorkforceManager \<Rightarrow> WorkforceManager" where
  "process_dependent_step completed_task_id task s =
     (if completed_task_id \<in> set (dependencies task) \<and> status task = PENDING
         \<and> task_id task \<notin> set (task_queue s)
      then (if dependents_ready s task
            then s\<lparr>task_queue := task_queue s @ [task_id task]\<rparr>
            else s)
      else s)"

definition process_dependent_tasks :: "string \<Rightarrow> WorkforceManager \<Rightarrow> WorkforceManager" where
  "process_dependent_tasks completed_task_id s =
     fold (process_dependent_step completed_task_id) (dict_values (tasks s)) s"

definition complete_task :: "string \<Rightarrow> string option \<Rightarrow> WorkforceManager \<Rightarrow> bool res" where
  "complete_task tid res s =
     (case dict_get (tasks s) tid of
        None \<Rightarrow> (Inr False, s)
      | Some task \<Rightarrow>
          if status task \<noteq> IN_PROGRESS then (Inr False, s)
          else
            let task' = task\<lparr>status := COMPLETED, result := res\<rparr>
            in case release_agent tid task' True (s\<lparr>tasks := dict_set (tasks s) tid task'\<rparr>) of
                 (Inl e, s1) \<Rightarrow> (Inl e, s1)
               | (Inr _, s1) \<Rightarrow>
                   (case process_task_queue
                           (process_dependent_tasks tid
                              (emit_event ''task_completed'' [(''task_id'', Some tid)] s1)) of
                      (Inl e, s') \<Rightarrow> (Inl e, s')
                    | (Inr _, s') \<Rightarrow> (Inr True, s')))"

definition fail_task :: "string \<Rightarrow> string option \<Rightarrow> WorkforceManager \<Rightarrow> bool res" where
  "fail_task tid reason s =
     (case dict_get (tasks s) tid of
        None \<Rightarrow> (Inr False, s)
      | Some task \<Rightarrow>
          if status task \<noteq> IN_PROGRESS then (Inr False, s)
          else
            let task' = task\<lparr>status := FAILED,
                             metadata := dict_set (metadata task) ''failure_reason'' reason\<rparr>
            in case release_agent tid task' False (s\<lparr>tasks := dict_set (tasks s) tid task'\<rparr>) of
                 (Inl e, s1) \<Rightarrow> (Inl e, s1)
               | (Inr _, s1) \<Rightarrow>
                   (Inr True,
                    emit_event ''task_failed''
                      [(''task_id'', Some tid), (''reason'', reason)] s1))"

definition reassign_task :: "string \<Rightarrow> WorkforceManager \<Rightarrow> unit res" where
  "reassign_task tid s =
     (case dict_get (tasks s) tid of
        None \<Rightarrow> (Inl KeyError, s)
      | Some task \<Rightarrow>
          (case (case assigned_agent task of
                   None \<Rightarrow> (Inr (), s)
                 | Some aid \<Rightarrow>
                     if aid = [] then (Inr (), s)
                     else
                       (case dict_get (agents s) aid of
                          None \<Rightarrow> (Inl KeyError, s)
                        | Some agent \<Rightarrow>
                            (case list_remove tid (current_tasks agent) of
                               Inl e \<Rightarrow> (Inl e, s)
                             | Inr ct \<Rightarrow>
                                 (Inr (),
                                  s\<lparr>agents := dict_set (agents s) aid
                                                 (agent\<lparr>current_tasks := ct\<rparr>)\<rparr>)))) of
             (Inl e, s1) \<Rightarrow> (Inl e, s1)
           | (Inr _, s1) \<Rightarrow>
               (Inr (),
                s1\<lparr>tasks := dict_set (tasks s1) tid
                               (task\<lparr>assigned_agent := None, status := PENDING\<rparr>),
                   task_queue := task_queue s1 @ [tid]\<rparr>)))"

text \<open>
  The loop of \<open>remove_agent\<close>: \<open>for task_id in agent.current_tasks\<close> walks the live
  list of the agent object by index, and \<open>_reassign_task\<close> removes from the list of
  the agent a task is assigned to. When that is the agent being removed, the list shrinks
  under the iterator. The list is therefore read from the current state at every step.
  The agent object stays in the registry until the loop is over.
\<close>

function remove_agent_loop :: "string \<Rightarrow> nat \<Rightarrow> WorkforceManager \<Rightarrow> unit res" where
  "remove_agent_loop agent_key i s =
     (case dict_get (agents s) agent_key of
        None \<Rightarrow> (Inr (), s)
      | Some agent \<Rightarrow>
          if i < length (current_tasks agent)
          then (case reassign_task (current_tasks agent ! i) s of
                  (Inl e, s') \<Rightarrow> (Inl e, s')
                | (Inr _, s') \<Rightarrow> remove_agent_loop agent_key (Suc i) s')
          else (Inr (), s))"
  by pat_completeness auto

termination remove_agent_loop
proof (relation "measure (\<lambda>(k, i, s). case dict_get (agents s) k of
                                          None \<Rightarrow> 0
                                        | Some a \<Rightarrow> length (current_tasks a) - i)")
  show "wf (measure (\<lambda>(k, i, s). case dict_get (agents s) k of
                                    None \<Rightarrow> 0
                                  | Some a \<Rightarrow> length (current_tasks a) - i))"
    by simp
next
  fix agent_key :: string and i :: nat and s :: WorkforceManager and agent x s' u
  assume a: "dict_get (agents s) agent_key = Some agent"
     and i: "i < length (current_tasks agent)"
     and r: "(x, s') = reassign_task (current_tasks agent ! i) s"
     and x: "x = Inr u"
  have dgs: "dict_get (dict_set d k v) k' = (if k' = k then Some v else dict_get d k')"
    for d :: "(string, Agent) dict" and k v k'
    by (induction d) (auto simp: dict_get_def)
  have "case dict_get (agents s') agent_key of
          None \<Rightarrow> True
        | Some a' \<Rightarrow> length (current_tasks a') \<le> length (current_tasks agent)"
    using a r x
    by (auto simp: reassign_task_def dgs list_remove_def length_remove1
             split: option.splits if_splits sum.splits prod.splits)
  then show "((agent_key, Suc i, s'), (agent_key, i, s))
          \<in> measure (\<lambda>(k, i, s). case dict_get (agents s) k of
                                    None \<Rightarrow> 0
                                  | Some a \<Rightarrow> length (current_tasks a) - i)"
    using a i by (auto split: option.splits)
qed

declare remove_agent_loop.simps [simp del]

definition remove_agent :: "string \<Rightarrow> WorkforceManager \<Rightarrow> bool res" where
  "remove_agent agent_key s =
     (case dict_get (agents s) agent_key of
        None \<Rightarrow> (Inr False, s)
      | Some _ \<Rightarrow>
          (case remove_agent_loop agent_key 0 s of
             (Inl e, s') \<Rightarrow> (Inl e, s')
           | (Inr _, s') \<Rightarrow>
               (Inr True,
                emit_event ''agent_removed'' [(''agent_id'', Some agent_key)]
                  (s'\<lparr>agents := dict_del (agents s') agent_key\<rparr>))))"

section \<open>Sequences of public calls\<close>

datatype call =
    RegisterAgent Agent
  | RemoveAgent string
  | SubmitTask Task
  | CompleteTask string "string option"
  | FailTask string "string option"
  | AddEventHandler string Handler

text \<open>
  The outcome of one call: what it returned (\<open>None\<close> for a method without a result) or
  the exception it raised, and the manager afterwards. A caller that catches the exception
  goes on with that manager.
\<close>

fun perform :: "call \<Rightarrow> WorkforceManager \<Rightarrow> (error + bool option) \<times> WorkforceManager" where
  "perform (RegisterAgent a) s = (Inr None, snd (register_agent a s))"
| "perform (RemoveAgent k) s = (map_sum id Some (fst (remove_agent k s)), snd (remove_agent k s))"
| "perform (SubmitTask t) s = (map_sum id Some (fst (submit_task t s)), snd (submit_task t s))"
| "perform (CompleteTask tid r) s =
     (map_sum id Some (fst (complete_task tid r s)), snd (complete_task tid r s))"
| "perform (FailTask tid r) s =
     (map_sum id Some (fst (fail_task tid r s)), snd (fail_task tid r s))"
| "perform (AddEventHandler et h) s = (Inr None, add_event_handler et h s)"

fun run :: "call list \<Rightarrow> WorkforceManager \<Rightarrow> WorkforceManager" where
  "run [] s = s"
| "run (c # cs) s = run cs (snd (perform c s))"

section \<open>Concrete inputs\<close>

text \<open>
  An agent and a task as their constructors build them with the default fields
  (\<open>Agent(k, ..., [''x''], max_concurrent_tasks=cap)\<close>, \<open>Task(k, ..., [''x''], dependencies=deps)\<close>).
\<close>

definition example_agent :: "string \<Rightarrow> int \<Rightarrow> Agent" where
  "example_agent k cap =
     \<lparr> agent_id = k, name = ''worker'', role = WORKER, capabilities = [''x''],
       max_concurrent_tasks = cap, current_tasks = [], performance_metrics = [],
       is_active = True \<rparr>"

definition example_task :: "string \<Rightarrow> string list \<Rightarrow> Task" where
  "example_task k deps =
     \<lparr> task_id = k, description = ''work'', requirements = [''x''], priority = 1,
       status = PENDING, assigned_agent = None, result = None, dependencies = deps,
       metadata = [] \<rparr>"

text \<open>What an observer sees of the registries: status and back-reference of every task,
  and the load of every agent.\<close>

definition task_view :: "WorkforceManager \<Rightarrow> (string \<times> TaskStatus \<times> string option) list" where
  "task_view s = map (\<lambda>kt. (fst kt, status (snd kt), assigned_agent (snd kt))) (tasks s)"

definition agent_view :: "WorkforceManager \<Rightarrow> (string \<times> string list) list" where
  "agent_view s = map (\<lambda>ka. (fst ka, current_tasks (snd ka))) (agents s)"

text \<open>One agent of capacity two that was given two tasks.\<close>

definition holding_two :: WorkforceManager where
  "holding_two =
     run [RegisterAgent (example_agent ''a1'' 2),
          SubmitTask (example_task ''t1'' []),
          SubmitTask (example_task ''t2'' [])] (new_manager None)"

text \<open>One agent of capacity one that works on \<open>t1\<close> while \<open>t2\<close> waits in the queue.\<close>

definition one_busy_one_waiting :: WorkforceManager where
  "one_busy_one_waiting =
     run [RegisterAgent (example_agent ''a1'' 1),
          SubmitTask (example_task ''t1'' []),
          SubmitTask (example_task ''t2'' [])] (new_manager None)"

text \<open>The manager while the first task runs, and after it was completed.\<close>

definition first_task_running :: WorkforceManager where
  "first_task_running =
     run [RegisterAgent (example_agent ''a1'' 1), SubmitTask (example_task ''t1'' [])]
       (new_manager None)"

definition first_task_done :: WorkforceManager where
  "first_task_done =
     run [RegisterAgent (example_agent ''a1'' 1), SubmitTask (example_task ''t1'' []),
          CompleteTask ''t1'' None]
       (new_manager None)"

text \<open>A dependent that was put in the registry directly: pending and not queued, while
  its prerequisite \<open>t1\<close> runs on the only agent.\<close>

definition blocked_dependent :: WorkforceManager where
  "blocked_dependent =
     first_task_running\<lparr>tasks := dict_set (tasks first_task_running) ''t2''
                                    (example_task ''t2'' [''t1''])\<rparr>"

section \<open>Notions used in the statements\<close>

text \<open>
  The metrics of an agent are touched only by \<open>_update_agent_metrics\<close>, once per
  completion (\<open>True\<close>) and once per failure (\<open>False\<close>) of a task the agent held.
  \<open>record_outcomes\<close> applies these updates in the order in which they happen.
\<close>

fun record_outcomes :: "bool list \<Rightarrow> Agent \<Rightarrow> (error + unit) \<times> Agent" where
  "record_outcomes [] agent = (Inr (), agent)"
| "record_outcomes (success # rest) agent =
     (case update_agent_metrics success agent of
        (Inl e, agent') \<Rightarrow> (Inl e, agent')
      | (Inr _, agent') \<Rightarrow> record_outcomes rest agent')"

definition metrics_of_counts :: "nat \<Rightarrow> nat \<Rightarrow> (string, rat) dict" where
  "metrics_of_counts n m =
     [(''total_tasks'', of_nat (n + m)), (''successful_tasks'', of_nat n),
      (''success_rate'', of_nat n / of_nat (n + m))]"

text \<open>
  \<open>subscribe_all\<close> registers handlers in the given order, each for its event kind;
  \<open>invocations\<close> reads the handler calls off a trace.
\<close>

definition subscribe_all :: "(string \<times> Handler) list \<Rightarrow> WorkforceManager \<Rightarrow> WorkforceManager" where
  "subscribe_all regs s = fold (\<lambda>r. add_event_handler (fst r) (snd r)) regs s"

fun invocations :: "effect list \<Rightarrow> (string \<times> string \<times> event_data) list" where
  "invocations [] = []"
| "invocations (Invoked h et d # es) = (h, et, d) # invocations es"
| "invocations (_ # es) = invocations es"

text \<open>
  Every public method changes the manager through a few kinds of mutation, each made
  under the test the source performs before it: writing the trace, moving the strategy
  cursor, registering a handler or an agent, storing a submitted task, assigning a
  pending task to an available agent, queueing a pending task, dequeuing, finishing an
  in-progress task (status change followed by the release of its agent), detaching a
  task that an agent holds, and deleting an agent. \<open>okA\<close> and \<open>okT\<close> say which agents
  and tasks the caller hands over. A property kept by each elementary mutation is kept
  by every method, whether it returns or raises.
\<close>

inductive micro ::
  "(Agent \<Rightarrow> bool) \<Rightarrow> (Task \<Rightarrow> WorkforceManager \<Rightarrow> bool)
     \<Rightarrow> WorkforceManager \<Rightarrow> WorkforceManager \<Rightarrow> bool"
  for okA :: "Agent \<Rightarrow> bool" and okT :: "Task \<Rightarrow> WorkforceManager \<Rightarrow> bool" where
  m_trace: "micro okA okT s (s\<lparr>trace := tr\<rparr>)"
| m_strategy: "micro okA okT s (s\<lparr>strategy := st\<rparr>)"
| m_handlers: "micro okA okT s (s\<lparr>event_handlers := eh\<rparr>)"
| m_register:
    "okA a \<Longrightarrow> micro okA okT s (s\<lparr>agents := dict_set (agents s) (agent_id a) a\<rparr>)"
| m_store:
    "okT t s \<Longrightarrow>
     micro okA okT s (s\<lparr>tasks := dict_set (tasks s) (task_id t) t,
                        task_queue := task_queue s @ [task_id t]\<rparr>)"
| m_assign:
    "dict_get (tasks s) tid = Some task \<Longrightarrow> status task = PENDING \<Longrightarrow>
     (k, agent) \<in> set (agents s) \<Longrightarrow> is_active agent \<Longrightarrow>
     int (length (current_tasks agent)) < max_concurrent_tasks agent \<Longrightarrow>
     micro okA okT s
       (s\<lparr>tasks := dict_set (tasks s) tid
                     (task\<lparr>assigned_agent := Some (agent_id agent), status := IN_PROGRESS\<rparr>),
          agents := dict_set (agents s) k
                      (agent\<lparr>current_tasks := current_tasks agent @ [task_id task]\<rparr>)\<rparr>)"
| m_enqueue:
    "(k, t) \<in> set (tasks s) \<Longrightarrow> status t = PENDING \<Longrightarrow>
     micro okA okT s (s\<lparr>task_queue := task_queue s @ [task_id t]\<rparr>)"
| m_dequeue: "micro okA okT s (s\<lparr>task_queue := remove1 tid (task_queue s)\<rparr>)"
| m_finish:
    "dict_get (tasks s) tid = Some task \<Longrightarrow> status task = IN_PROGRESS \<Longrightarrow>
     status task' = COMPLETED \<or> status task' = FAILED \<Longrightarrow>
     assigned_agent task' = assigned_agent task \<Longrightarrow> task_id task' = task_id task \<Longrightarrow>
     micro okA okT s
       (snd (release_agent tid task' success (s\<lparr>tasks := dict_set (tasks s) tid task'\<rparr>)))"
| m_reassign:
    "(k, a) \<in> set (agents s) \<Longrightarrow> tid \<in> set (current_tasks a) \<Longrightarrow>
     micro okA okT s (snd (reassign_task tid s))"
| m_delete: "micro okA okT s (s\<lparr>agents := dict_del (agents s) k\<rparr>)"

text \<open>
  A call is admissible when the agent it registers satisfies \<open>okA\<close> and the task it
  submits satisfies \<open>okT\<close> in the state it is submitted to; a sequence of calls is
  admissible when each call is, in the state its predecessors leave behind.
\<close>

fun admissible :: "(Agent \<Rightarrow> bool) \<Rightarrow> (Task \<Rightarrow> WorkforceManager \<Rightarrow> bool) \<Rightarrow> call \<Rightarrow> WorkforceManager \<Rightarrow> bool" where
  "admissible okA okT (RegisterAgent a) s = okA a"
| "admissible okA okT (SubmitTask t) s = okT t s"
| "admissible okA okT _ s = True"

fun admissible_run :: "(Agent \<Rightarrow> bool) \<Rightarrow> (Task \<Rightarrow> WorkforceManager \<Rightarrow> bool) \<Rightarrow> call list \<Rightarrow> WorkforceManager \<Rightarrow> bool" where
  "admissible_run okA okT [] s = True"
| "admissible_run okA okT (c # cs) s =
     (admissible okA okT c s \<and> admissible_run okA okT cs (snd (perform c s)))"

text \<open>
  \<open>within_capacity\<close>: an agent holds no more tasks than its capacity.
  \<open>consistent\<close>: a task has no assigned agent exactly when it is pending.
\<close>

definition within_capacity :: "Agent \<Rightarrow> bool" where
  "within_capacity a = (int (length (current_tasks a)) \<le> max_concurrent_tasks a)"

definition consistent :: "Task \<Rightarrow> bool" where
  "consistent t = (assigned_agent t = None \<longleftrightarrow> status t = PENDING)"

definition capacity_respected :: "WorkforceManager \<Rightarrow> bool" where
  "capacity_respected s = (\<forall>ka \<in> set (agents s). within_capacity (snd ka))"

definition all_consistent :: "WorkforceManager \<Rightarrow> bool" where
  "all_consistent s = (\<forall>kt \<in> set (tasks s). consistent (snd kt))"

text \<open>How the loop may change one task: not at all, or from pending to in progress.\<close>

definition advanced :: "Task \<Rightarrow> Task \<Rightarrow> bool" where
  "advanced t t' \<longleftrightarrow>
     t' = t \<or> (status t = PENDING
               \<and> (\<exists>aid. t' = t\<lparr>assigned_agent := Some aid, status := IN_PROGRESS\<rparr>))"

text \<open>
  \<open>well_keyed\<close>: every task is stored under its own id and every id in the queue is
  in the registry. Both hold in every state that public calls can reach, whatever the
  arguments, so the queue drain never raises there.
\<close>

definition well_keyed :: "WorkforceManager \<Rightarrow> bool" where
  "well_keyed s \<longleftrightarrow>
     (\<forall>kt \<in> set (tasks s). task_id (snd kt) = fst kt)
     \<and> (\<forall>tid \<in> set (task_queue s). dict_get (tasks s) tid \<noteq> None)"

text \<open>
  The manager that \<open>complete_task\<close> hands to the queue drain: the task marked completed,
  its agent released, the event emitted and the dependents scanned. And the manager as the
  drain finds it when it reaches the first queue entry of a task.
\<close>

definition drain_input :: "string \<Rightarrow> string option \<Rightarrow> WorkforceManager \<Rightarrow> WorkforceManager" where
  "drain_input x r s =
     (case dict_get (tasks s) x of
        None \<Rightarrow> s
      | Some tx \<Rightarrow>
          process_dependent_tasks x
            (emit_event ''task_completed'' [(''task_id'', Some x)]
               (snd (release_agent x (tx\<lparr>status := COMPLETED, result := r\<rparr>) True
                       (s\<lparr>tasks := dict_set (tasks s) x
                                      (tx\<lparr>status := COMPLETED, result := r\<rparr>)\<rparr>)))))"

definition turn_state :: "string \<Rightarrow> WorkforceManager \<Rightarrow> WorkforceManager" where
  "turn_state y s =
     snd (process_task_queue_loop (takeWhile (\<lambda>t. t \<noteq> y) (task_queue s)) [] s)"

text \<open>
  \<open>holding_ok\<close>: agents are stored under their own non-empty ids, no id twice; the
  list of an agent names each task once, and every task it names is in the registry, in
  progress and assigned to that agent; tasks are stored under their ids.
  \<open>terminal_kept\<close>: every task that was completed or failed in the first state is in
  the registry of the second with the same status.
  \<open>fresh_agent\<close>: an agent with a non-empty id that holds no task.
  \<open>new_id\<close>: a task whose id is not in the registry yet.
\<close>

definition holds_ok :: "WorkforceManager \<Rightarrow> string \<Rightarrow> Agent \<Rightarrow> bool" where
  "holds_ok s k a \<longleftrightarrow>
     k \<noteq> [] \<and> agent_id a = k \<and> distinct (current_tasks a)
     \<and> (\<forall>tid \<in> set (current_tasks a).
           \<exists>t. dict_get (tasks s) tid = Some t \<and> status t = IN_PROGRESS
               \<and> assigned_agent t = Some k)"

definition holding_ok :: "WorkforceManager \<Rightarrow> bool" where
  "holding_ok s \<longleftrightarrow>
     distinct (map fst (agents s))
     \<and> (\<forall>ka \<in> set (agents s). holds_ok s (fst ka) (snd ka))
     \<and> (\<forall>kt \<in> set (tasks s). task_id (snd kt) = fst kt)"

definition terminal_kept :: "WorkforceManager \<Rightarrow> WorkforceManager \<Rightarrow> bool" where
  "terminal_kept s s' \<longleftrightarrow>
     (\<forall>k t. dict_get (tasks s) k = Some t \<and> (status t = COMPLETED \<or> status t = FAILED)
        \<longrightarrow> (\<exists>t'. dict_get (tasks s') k = Some t' \<and> status t' = status t))"

definition fresh_agent :: "Agent \<Rightarrow> bool" where
  "fresh_agent a \<longleftrightarrow> agent_id a \<noteq> [] \<and> current_tasks a = []"

definition new_id :: "Task \<Rightarrow> WorkforceManager \<Rightarrow> bool" where
  "new_id t s \<longleftrightarrow> task_id t \<notin> set (dict_keys (tasks s))"

text \<open>
  A sequence of calls is orderly when every agent it registers is fresh and every task it
  submits has an id that is not in the registry at that moment.
\<close>

definition orderly :: "call list \<Rightarrow> WorkforceManager \<Rightarrow> bool" where
  "orderly cs s = admissible_run fresh_agent new_id cs s"

section \<open>Dictionaries and strategies: basic facts\<close>

lemma dict_get_dict_set:
  "dict_get (dict_set d k v) k' = (if k' = k then Some v else dict_get d k')"
  by (induction d) (auto simp: dict_get_def)

lemma dict_get_SomeD: "dict_get d k = Some v \<Longrightarrow> (k, v) \<in> set d"
  by (simp add: dict_get_def map_of_SomeD)

lemma dict_get_None_iff: "dict_get d k = None \<longleftrightarrow> k \<notin> fst ` set d"
  by (simp add: dict_get_def map_of_eq_None_iff)

lemma dict_get_distinct: "distinct (map fst d) \<Longrightarrow> (k, v) \<in> set d \<Longrightarrow> dict_get d k = Some v"
  by (simp add: dict_get_def)

lemma set_dict_set_subset: "set (dict_set d k v) \<subseteq> insert (k, v) (set d)"
  by (induction d) (auto split: if_splits)

lemma map_fst_dict_set:
  "map fst (dict_set d k v) = (if k \<in> fst ` set d then map fst d else map fst d @ [k])"
  by (induction d) (auto split: if_splits)

lemma keys_dict_set: "fst ` set (dict_set d k v) = insert k (fst ` set d)"
proof -
  have "set (map fst (dict_set d k v)) = insert k (set (map fst d))"
    by (auto simp: map_fst_dict_set)
  then show ?thesis by simp
qed

lemma distinct_dict_set: "distinct (map fst d) \<Longrightarrow> distinct (map fst (dict_set d k v))"
  by (simp add: map_fst_dict_set)

lemma dict_set_mem_distinct:
  "distinct (map fst d) \<Longrightarrow>
   (k', v') \<in> set (dict_set d k v) \<longleftrightarrow> (k' = k \<and> v' = v) \<or> (k' \<noteq> k \<and> (k', v') \<in> set d)"
  by (induction d) (auto simp: rev_image_eqI split: if_splits)

lemma set_dict_del: "set (dict_del d k) = {kv \<in> set d. fst kv \<noteq> k}"
  by (auto simp: dict_del_def)

lemma distinct_dict_del: "distinct (map fst d) \<Longrightarrow> distinct (map fst (dict_del d k))"
  by (simp add: dict_del_def distinct_map_filter)

lemma py_max_by_mem: "py_max_by f best xs \<in> set (best # xs)"
  by (induction xs arbitrary: best) (auto split: if_splits)

lemma py_min_by_mem: "py_min_by f best xs \<in> set (best # xs)"
  by (induction xs arbitrary: best) (auto split: if_splits)

lemma assign_task_pick:
  assumes "assign_task st task av = (Some ka, st')"
  shows "ka \<in> set av"
proof (cases st)
  case (RoundRobinStrategy i)
  with assms have ne: "av \<noteq> []" and ka: "ka = av ! nat ((i + 1) mod int (length av))"
    by (auto simp: Let_def split: if_splits)
  from ne have "nat ((i + 1) mod int (length av)) < length av"
    by (simp add: nat_less_iff)
  with ka show ?thesis by simp
next
  case CapabilityBasedStrategy
  with assms obtain a suitable where
    f: "filter (\<lambda>ka. has_capabilities task (snd ka)) av = a # suitable"
    and ka: "ka = py_max_by (\<lambda>ka. success_rate_of (snd ka)) a suitable"
    by (auto split: list.splits)
  have "ka \<in> set (a # suitable)" unfolding ka by (rule py_max_by_mem)
  then have "ka \<in> set (filter (\<lambda>ka. has_capabilities task (snd ka)) av)" by (simp only: f)
  then show ?thesis by simp
next
  case PriorityBasedStrategy
  with assms obtain a suitable where
    f: "filter (\<lambda>ka. has_capabilities task (snd ka)
                   \<and> int (length (current_tasks (snd ka))) < max_concurrent_tasks (snd ka)) av
          = a # suitable"
    and ka: "ka = py_min_by (\<lambda>ka. length (current_tasks (snd ka))) a suitable"
    by (auto split: list.splits)
  have "ka \<in> set (a # suitable)" unfolding ka by (rule py_min_by_mem)
  then have "ka \<in> set (filter (\<lambda>ka. has_capabilities task (snd ka)
                   \<and> int (length (current_tasks (snd ka))) < max_concurrent_tasks (snd ka)) av)"
    by (simp only: f)
  then show ?thesis by simp
qed

section \<open>Removing an agent\<close>

text \<open>
  Claim C1 (removal of an agent that holds several tasks). The agent \<open>a1\<close> holds
  \<open>[t1, t2]\<close>, both in progress. \<open>remove_agent\<close> returns true, deletes the agent and
  emits \<open>agent_removed\<close>, but detaches only \<open>t1\<close>: removing \<open>t1\<close> from the list that the
  loop is walking moves \<open>t2\<close> to index 0, which the iterator has already passed. \<open>t2\<close>
  stays in progress, still assigned to the deleted agent, and is not queued.
\<close>

theorem remove_agent_skips_every_other_task:
  "agent_view holding_two = [(''a1'', [''t1'', ''t2''])]
   \<and> task_view holding_two
       = [(''t1'', IN_PROGRESS, Some ''a1''), (''t2'', IN_PROGRESS, Some ''a1'')]
   \<and> fst (remove_agent ''a1'' holding_two) = Inr True
   \<and> task_view (snd (remove_agent ''a1'' holding_two))
       = [(''t1'', PENDING, None), (''t2'', IN_PROGRESS, Some ''a1'')]
   \<and> task_queue (snd (remove_agent ''a1'' holding_two)) = [''t1'']
   \<and> agent_view (snd (remove_agent ''a1'' holding_two)) = []
   \<and> last (trace (snd (remove_agent ''a1'' holding_two)))
       = Emitted ''agent_removed'' [(''agent_id'', Some ''a1'')]"
  by code_simp

section \<open>Raised exceptions\<close>

text \<open>
  Claim C3 (no public call raises). After the removal above, \<open>t2\<close> is in progress and
  refers to an agent that is gone; \<open>complete_task\<close> and \<open>fail_task\<close> then index the agent
  registry with that id and raise \<open>KeyError\<close> instead of returning false. The task has
  already been marked completed (or failed) when the exception leaves the method.
  A second way to an exception: an agent that is registered again under the id of an
  agent at work replaces it with an empty task list, and finishing the task of the old
  agent then raises \<open>ValueError\<close> when the task id is removed from that list.
\<close>

theorem complete_and_fail_raise_KeyError:
  "fst (complete_task ''t2'' None (snd (remove_agent ''a1'' holding_two))) = Inl KeyError
   \<and> fst (fail_task ''t2'' None (snd (remove_agent ''a1'' holding_two))) = Inl KeyError
   \<and> task_view (snd (complete_task ''t2'' None (snd (remove_agent ''a1'' holding_two))))
       = [(''t1'', PENDING, None), (''t2'', COMPLETED, Some ''a1'')]
   \<and> fst (complete_task ''t1'' None
             (snd (register_agent (example_agent ''a1'' 1) first_task_running)))
       = Inl ValueError
   \<and> fst (fail_task ''t1'' None
             (snd (register_agent (example_agent ''a1'' 1) first_task_running)))
       = Inl ValueError"
  by code_simp

section \<open>Failure and the queue\<close>

text \<open>
  Claim C4 (queue-drain after a failure). \<open>a1\<close> has capacity one, works on \<open>t1\<close>, and
  \<open>t2\<close> waits. \<open>fail_task\<close> on \<open>t1\<close> returns true and frees \<open>a1\<close>, and the strategy
  would now pick \<open>a1\<close> for \<open>t2\<close>; but \<open>fail_task\<close> does not run the queue, so \<open>t2\<close> is
  still pending and queued when the call returns. \<open>complete_task\<close> in the same state
  does run the queue and \<open>t2\<close> goes in progress.
\<close>

theorem fail_task_leaves_queue_undrained:
  "task_view one_busy_one_waiting = [(''t1'', IN_PROGRESS, Some ''a1''), (''t2'', PENDING, None)]
   \<and> fst (fail_task ''t1'' None one_busy_one_waiting) = Inr True
   \<and> task_view (snd (fail_task ''t1'' None one_busy_one_waiting))
       = [(''t1'', FAILED, Some ''a1''), (''t2'', PENDING, None)]
   \<and> task_queue (snd (fail_task ''t1'' None one_busy_one_waiting)) = [''t2'']
   \<and> map_option fst
        (fst (assign_task (strategy (snd (fail_task ''t1'' None one_busy_one_waiting)))
                (example_task ''t2'' [])
                (get_available_agents (snd (fail_task ''t1'' None one_busy_one_waiting)))))
       = Some ''a1''
   \<and> task_view (snd (complete_task ''t1'' None one_busy_one_waiting))
       = [(''t1'', COMPLETED, Some ''a1''), (''t2'', IN_PROGRESS, Some ''a1'')]"
  by code_simp

section \<open>Agent metrics\<close>

lemma update_agent_metrics_fresh:
  "performance_metrics a = [] \<Longrightarrow>
   update_agent_metrics b a
     = (Inr (), a\<lparr>performance_metrics := metrics_of_counts (if b then 1 else 0) (if b then 0 else 1)\<rparr>)"
  by (simp add: update_agent_metrics_def dict_get_def py_truediv_def metrics_of_counts_def Let_def)

lemma update_agent_metrics_counts:
  "performance_metrics a = metrics_of_counts n m \<Longrightarrow>
   update_agent_metrics b a
     = (Inr (), a\<lparr>performance_metrics :=
                     metrics_of_counts (if b then Suc n else n) (if b then m else Suc m)\<rparr>)"
  apply (simp add: update_agent_metrics_def dict_get_def py_truediv_def metrics_of_counts_def Let_def)
  apply (auto simp: add.commute add_pos_nonneg algebra_simps)
  done

lemma record_outcomes_counts:
  "performance_metrics a = metrics_of_counts n m \<Longrightarrow>
   record_outcomes bs a
     = (Inr (), a\<lparr>performance_metrics :=
                     metrics_of_counts (n + length (filter id bs)) (m + length (filter Not bs))\<rparr>)"
proof (induction bs arbitrary: a n m)
  case Nil
  then show ?case by simp
next
  case (Cons b bs)
  let ?a' = "a\<lparr>performance_metrics :=
                  metrics_of_counts (if b then Suc n else n) (if b then m else Suc m)\<rparr>"
  have step: "update_agent_metrics b a = (Inr (), ?a')"
    using Cons.prems by (rule update_agent_metrics_counts)
  have "performance_metrics ?a' = metrics_of_counts (if b then Suc n else n) (if b then m else Suc m)"
    by simp
  from Cons.IH [OF this] show ?case
    by (simp add: step)
qed

lemma record_outcomes_fresh:
  assumes "performance_metrics a = []" "bs \<noteq> []"
  shows "record_outcomes bs a
     = (Inr (), a\<lparr>performance_metrics :=
                     metrics_of_counts (length (filter id bs)) (length (filter Not bs))\<rparr>)"
proof -
  from assms(2) obtain b rest where bs: "bs = b # rest" by (cases bs) auto
  let ?a' = "a\<lparr>performance_metrics := metrics_of_counts (if b then 1 else 0) (if b then 0 else 1)\<rparr>"
  have step: "update_agent_metrics b a = (Inr (), ?a')"
    using assms(1) by (rule update_agent_metrics_fresh)
  have "performance_metrics ?a' = metrics_of_counts (if b then 1 else 0) (if b then 0 else 1)"
    by simp
  from record_outcomes_counts [OF this, of rest] show ?thesis
    by (simp add: bs step)
qed

lemma update_agent_metrics_no_zero_division:
  "fst (update_agent_metrics b a) \<noteq> Inl ZeroDivisionError"
  by (auto simp: update_agent_metrics_def py_truediv_def Let_def split: option.splits)



section \<open>Event delivery\<close>

lemma handlers_after_subscribe:
  "dict_get (event_handlers (subscribe_all regs s)) kind
     = (case (dict_get (event_handlers s) kind, map snd (filter (\<lambda>r. fst r = kind) regs)) of
          (None, []) \<Rightarrow> None
        | (None, h # hs) \<Rightarrow> Some (h # hs)
        | (Some hs0, hs) \<Rightarrow> Some (hs0 @ hs))"
proof (induction regs arbitrary: s)
  case Nil
  then show ?case by (simp add: subscribe_all_def split: option.splits)
next
  case (Cons r regs)
  have "subscribe_all (r # regs) s = subscribe_all regs (add_event_handler (fst r) (snd r) s)"
    by (simp add: subscribe_all_def)
  then show ?case
    by (simp add: Cons.IH add_event_handler_def dict_get_dict_set
             split: option.splits list.splits)
qed

lemma invocations_append: "invocations (xs @ ys) = invocations xs @ invocations ys"
  by (induction xs rule: invocations.induct) auto

lemma invocations_call_handlers:
  "invocations (concat (map (call_handler kind data) hs))
     = map (\<lambda>h. (handler_name h, kind, data)) hs"
  by (induction hs) (auto simp: call_handler_def invocations_append split: option.splits)

text \<open>
  Claim C10 (event bus). After any sequence of registrations on a new manager, publishing
  an event of some kind calls exactly the handlers registered for that kind, once per
  registration and in registration order, each with the event kind and payload, whatever
  any of them raises; handlers of other kinds are not called. Publishing changes nothing
  of the manager but the trace, and it cannot raise.
\<close>

theorem emit_event_delivery:
  "invocations (trace (emit_event kind data (subscribe_all regs (new_manager strat))))
     = map (\<lambda>r. (handler_name (snd r), kind, data)) (filter (\<lambda>r. fst r = kind) regs)
   \<and> (emit_event kind data s)\<lparr>trace := trace s\<rparr> = s"
proof -
  have eh: "dict_get (event_handlers (new_manager strat)) kind = None"
    by (simp add: new_manager_def dict_get_def)
  have tr: "trace (subscribe_all regs s') = trace s'" for s'
    by (induction regs arbitrary: s')
       (auto simp: subscribe_all_def add_event_handler_def split: option.splits)
  have "trace (new_manager strat) = []" by (simp add: new_manager_def)
  then show ?thesis
    using invocations_call_handlers [of kind data "map snd (filter (\<lambda>r. fst r = kind) regs)"]
    by (auto simp: emit_event_def handlers_after_subscribe eh tr comp_def
                split: option.splits list.splits)
qed

section \<open>Elementary mutations\<close>

lemma emit_event_eq: "\<exists>tr. emit_event et d s = s\<lparr>trace := tr\<rparr>"
  by (auto simp: emit_event_def split: option.splits)

lemma emit_event_micro: "micro okA okT s (emit_event et d s)"
proof -
  obtain tr where "emit_event et d s = s\<lparr>trace := tr\<rparr>" using emit_event_eq by blast
  then show ?thesis by (simp add: m_trace)
qed

lemma assign_task_to_agent_micro:
  assumes "dict_get (tasks s) tid = Some task" "status task = PENDING"
    "(k, agent) \<in> set (get_available_agents s)"
  shows "(micro okA okT)\<^sup>*\<^sup>* s (assign_task_to_agent tid task k agent s)"
proof -
  from assms(3) have g: "(k, agent) \<in> set (agents s)" "is_active agent"
      "int (length (current_tasks agent)) < max_concurrent_tasks agent"
    by (auto simp: get_available_agents_def)
  have "micro okA okT s
       (s\<lparr>tasks := dict_set (tasks s) tid
                     (task\<lparr>assigned_agent := Some (agent_id agent), status := IN_PROGRESS\<rparr>),
          agents := dict_set (agents s) k
                      (agent\<lparr>current_tasks := current_tasks agent @ [task_id task]\<rparr>)\<rparr>)"
    using assms(1,2) g by (rule m_assign)
  moreover have "micro okA okT
       (s\<lparr>tasks := dict_set (tasks s) tid
                     (task\<lparr>assigned_agent := Some (agent_id agent), status := IN_PROGRESS\<rparr>),
          agents := dict_set (agents s) k
                      (agent\<lparr>current_tasks := current_tasks agent @ [task_id task]\<rparr>)\<rparr>)
       (assign_task_to_agent tid task k agent s)"
    unfolding assign_task_to_agent_def by (rule emit_event_micro)
  ultimately show ?thesis by (meson rtranclp.rtrancl_into_rtrancl r_into_rtranclp)
qed

lemma process_task_queue_loop_micro:
  "(micro okA okT)\<^sup>*\<^sup>* s (snd (process_task_queue_loop q pr s))"
proof (induction q arbitrary: pr s)
  case Nil
  then show ?case by simp
next
  case (Cons tid q)
  show ?case
  proof (cases "dict_get (tasks s) tid")
    case None
    then show ?thesis by simp
  next
    case (Some task)
    note tk = Some
    show ?thesis
    proof (cases "status task = PENDING")
      case False
      then show ?thesis using tk Cons.IH by simp
    next
      case True
      obtain pick strat where a: "assign_task (strategy s) task (get_available_agents s) = (pick, strat)"
        by (cases "assign_task (strategy s) task (get_available_agents s)")
      have st: "micro okA okT s (s\<lparr>strategy := strat\<rparr>)" by (rule m_strategy)
      show ?thesis
      proof (cases pick)
        case None
        have "(micro okA okT)\<^sup>*\<^sup>* (s\<lparr>strategy := strat\<rparr>)
                (snd (process_task_queue_loop q pr (s\<lparr>strategy := strat\<rparr>)))"
          by (rule Cons.IH)
        with st show ?thesis using tk True a None
          by (simp add: converse_rtranclp_into_rtranclp)
      next
        case (Some ka)
        obtain k agent where ka: "ka = (k, agent)" by (cases ka)
        have "(k, agent) \<in> set (get_available_agents s)"
          using assign_task_pick [OF a [unfolded Some ka]] .
        then have av: "(k, agent) \<in> set (get_available_agents (s\<lparr>strategy := strat\<rparr>))"
          by (simp add: get_available_agents_def)
        have "(micro okA okT)\<^sup>*\<^sup>* (s\<lparr>strategy := strat\<rparr>)
                (assign_task_to_agent tid task k agent (s\<lparr>strategy := strat\<rparr>))"
          by (rule assign_task_to_agent_micro) (use tk True av in auto)
        moreover have "(micro okA okT)\<^sup>*\<^sup>*
                (assign_task_to_agent tid task k agent (s\<lparr>strategy := strat\<rparr>))
                (snd (process_task_queue_loop q (pr @ [tid])
                        (assign_task_to_agent tid task k agent (s\<lparr>strategy := strat\<rparr>))))"
          by (rule Cons.IH)
        ultimately have "(micro okA okT)\<^sup>*\<^sup>* s
                (snd (process_task_queue_loop q (pr @ [tid])
                        (assign_task_to_agent tid task k agent (s\<lparr>strategy := strat\<rparr>))))"
          using st by (meson converse_rtranclp_into_rtranclp rtranclp_trans)
        then show ?thesis using tk True a Some ka by simp
      qed
    qed
  qed
qed

lemma remove_processed_micro: "(micro okA okT)\<^sup>*\<^sup>* s (snd (remove_processed ps s))"
proof (induction ps arbitrary: s)
  case Nil
  then show ?case by simp
next
  case (Cons tid ps)
  show ?case
  proof (cases "tid \<in> set (task_queue s)")
    case False
    then show ?thesis by (simp add: list_remove_def)
  next
    case True
    have "micro okA okT s (s\<lparr>task_queue := remove1 tid (task_queue s)\<rparr>)" by (rule m_dequeue)
    with Cons.IH [of "s\<lparr>task_queue := remove1 tid (task_queue s)\<rparr>"] show ?thesis
      using True by (simp add: list_remove_def converse_rtranclp_into_rtranclp)
  qed
qed

lemma process_task_queue_micro: "(micro okA okT)\<^sup>*\<^sup>* s (snd (process_task_queue s))"
proof (cases "process_task_queue_loop (task_queue s) [] s")
  case (Pair r s1)
  have 1: "(micro okA okT)\<^sup>*\<^sup>* s s1"
    using process_task_queue_loop_micro [of okA okT s "task_queue s" "[]"] Pair by simp
  show ?thesis
  proof (cases r)
    case (Inl e)
    then show ?thesis using 1 Pair by (simp add: process_task_queue_def)
  next
    case (Inr ps)
    have "(micro okA okT)\<^sup>*\<^sup>* s1 (snd (remove_processed ps s1))" by (rule remove_processed_micro)
    with 1 show ?thesis using Pair Inr by (simp add: process_task_queue_def)
  qed
qed

lemma micro_step_then:
  "micro okA okT s s1 \<Longrightarrow> (micro okA okT)\<^sup>*\<^sup>* s1 s2 \<Longrightarrow> (micro okA okT)\<^sup>*\<^sup>* s s2"
  by (rule converse_rtranclp_into_rtranclp)

lemma micro_two_steps:
  "micro okA okT s s1 \<Longrightarrow> micro okA okT s1 s2 \<Longrightarrow> (micro okA okT)\<^sup>*\<^sup>* s s2"
  by (rule micro_step_then) (auto intro: r_into_rtranclp)

lemma micro_then_step:
  "(micro okA okT)\<^sup>*\<^sup>* s s1 \<Longrightarrow> micro okA okT s1 s2 \<Longrightarrow> (micro okA okT)\<^sup>*\<^sup>* s s2"
  by (rule rtranclp.rtrancl_into_rtrancl)

lemma process_dependent_fold_micro:
  "\<forall>t \<in> set ts. \<exists>k. (k, t) \<in> set (tasks s) \<Longrightarrow>
   (micro okA okT)\<^sup>*\<^sup>* s (fold (process_dependent_step x) ts s)"
proof (induction ts arbitrary: s)
  case Nil
  then show ?case by simp
next
  case (Cons t ts)
  have tk: "tasks (process_dependent_step x t s) = tasks s"
    by (simp add: process_dependent_step_def)
  have 1: "(micro okA okT)\<^sup>*\<^sup>* s (process_dependent_step x t s)"
  proof (cases "process_dependent_step x t s = s")
    case True
    then show ?thesis by simp
  next
    case False
    then have eq: "process_dependent_step x t s = s\<lparr>task_queue := task_queue s @ [task_id t]\<rparr>"
      and pend: "status t = PENDING"
      by (auto simp: process_dependent_step_def split: if_splits)
    from Cons.prems obtain k where "(k, t) \<in> set (tasks s)" by auto
    then have "micro okA okT s (s\<lparr>task_queue := task_queue s @ [task_id t]\<rparr>)"
      using pend by (rule m_enqueue)
    then show ?thesis by (simp add: eq)
  qed
  have "(micro okA okT)\<^sup>*\<^sup>* (process_dependent_step x t s)
          (fold (process_dependent_step x) ts (process_dependent_step x t s))"
    by (rule Cons.IH) (use Cons.prems tk in auto)
  with 1 show ?case by simp
qed

lemma process_dependent_tasks_micro:
  "(micro okA okT)\<^sup>*\<^sup>* s (process_dependent_tasks x s)"
  unfolding process_dependent_tasks_def
  by (rule process_dependent_fold_micro) (auto simp: dict_values_def)

lemma register_agent_micro:
  "okA a \<Longrightarrow> (micro okA okT)\<^sup>*\<^sup>* s (snd (register_agent a s))"
proof -
  assume "okA a"
  then have "micro okA okT s (s\<lparr>agents := dict_set (agents s) (agent_id a) a\<rparr>)"
    by (rule m_register)
  moreover have "micro okA okT (s\<lparr>agents := dict_set (agents s) (agent_id a) a\<rparr>)
                   (snd (register_agent a s))"
    by (simp add: register_agent_def emit_event_micro)
  ultimately show ?thesis by (rule micro_two_steps)
qed

lemma submit_task_micro:
  assumes "okT t s"
  shows "(micro okA okT)\<^sup>*\<^sup>* s (snd (submit_task t s))"
proof (cases "list_all (dependency_met s) (dependencies t)")
  case False
  then show ?thesis by (simp add: submit_task_def)
next
  case True
  let ?s1 = "s\<lparr>tasks := dict_set (tasks s) (task_id t) t,
                task_queue := task_queue s @ [task_id t]\<rparr>"
  let ?s2 = "emit_event ''task_submitted'' [(''task_id'', Some (task_id t))] ?s1"
  have 1: "micro okA okT s ?s1" using assms by (rule m_store)
  have 2: "micro okA okT ?s1 ?s2" by (rule emit_event_micro)
  have 3: "(micro okA okT)\<^sup>*\<^sup>* ?s2 (snd (process_task_queue ?s2))"
    by (rule process_task_queue_micro)
  have eq: "snd (submit_task t s) = snd (process_task_queue ?s2)"
    using True by (simp add: submit_task_def split: prod.splits sum.splits)
  have "(micro okA okT)\<^sup>*\<^sup>* s (snd (process_task_queue ?s2))"
    by (rule micro_step_then [OF 1], rule micro_step_then [OF 2], rule 3)
  then show ?thesis by (simp only: eq)
qed

lemma finish_micro:
  assumes "dict_get (tasks s) tid = Some task" "status task = IN_PROGRESS"
    "status task' = COMPLETED \<or> status task' = FAILED"
    "assigned_agent task' = assigned_agent task" "task_id task' = task_id task"
  shows "micro okA okT s
           (snd (release_agent tid task' success (s\<lparr>tasks := dict_set (tasks s) tid task'\<rparr>)))"
  using assms by (rule m_finish)

lemma complete_task_micro: "(micro okA okT)\<^sup>*\<^sup>* s (snd (complete_task tid r s))"
proof (cases "dict_get (tasks s) tid")
  case None
  then show ?thesis by (simp add: complete_task_def)
next
  case (Some task)
  show ?thesis
  proof (cases "status task = IN_PROGRESS")
    case False
    then show ?thesis using Some by (simp add: complete_task_def)
  next
    case True
    let ?task' = "task\<lparr>status := COMPLETED, result := r\<rparr>"
    obtain x s1 where rel:
      "release_agent tid ?task' True (s\<lparr>tasks := dict_set (tasks s) tid ?task'\<rparr>) = (x, s1)"
      by (cases "release_agent tid ?task' True (s\<lparr>tasks := dict_set (tasks s) tid ?task'\<rparr>)")
    have "micro okA okT s
           (snd (release_agent tid ?task' True (s\<lparr>tasks := dict_set (tasks s) tid ?task'\<rparr>)))"
      by (rule finish_micro [OF Some True]) simp_all
    then have 1: "micro okA okT s s1" by (simp add: rel)
    show ?thesis
    proof (cases x)
      case (Inl e)
      then show ?thesis using Some True rel 1 by (simp add: complete_task_def Let_def)
    next
      case (Inr u)
      let ?s2 = "emit_event ''task_completed'' [(''task_id'', Some tid)] s1"
      let ?s3 = "process_dependent_tasks tid ?s2"
      have 2: "micro okA okT s1 ?s2" by (rule emit_event_micro)
      have 3: "(micro okA okT)\<^sup>*\<^sup>* ?s2 ?s3" by (rule process_dependent_tasks_micro)
      have 4: "(micro okA okT)\<^sup>*\<^sup>* ?s3 (snd (process_task_queue ?s3))"
        by (rule process_task_queue_micro)
      have eq: "snd (complete_task tid r s) = snd (process_task_queue ?s3)"
        using Some True rel Inr
        by (simp add: complete_task_def Let_def split: prod.splits sum.splits)
      have "(micro okA okT)\<^sup>*\<^sup>* ?s2 (snd (process_task_queue ?s3))"
        using 3 4 by (rule rtranclp_trans)
      then have "(micro okA okT)\<^sup>*\<^sup>* s (snd (process_task_queue ?s3))"
        by (intro micro_step_then [OF 1] micro_step_then [OF 2])
      then show ?thesis by (simp only: eq)
    qed
  qed
qed

lemma fail_task_micro: "(micro okA okT)\<^sup>*\<^sup>* s (snd (fail_task tid r s))"
proof (cases "dict_get (tasks s) tid")
  case None
  then show ?thesis by (simp add: fail_task_def)
next
  case (Some task)
  show ?thesis
  proof (cases "status task = IN_PROGRESS")
    case False
    then show ?thesis using Some by (simp add: fail_task_def)
  next
    case True
    let ?task' = "task\<lparr>status := FAILED,
                       metadata := dict_set (metadata task) ''failure_reason'' r\<rparr>"
    obtain x s1 where rel:
      "release_agent tid ?task' False (s\<lparr>tasks := dict_set (tasks s) tid ?task'\<rparr>) = (x, s1)"
      by (cases "release_agent tid ?task' False (s\<lparr>tasks := dict_set (tasks s) tid ?task'\<rparr>)")
    have "micro okA okT s
           (snd (release_agent tid ?task' False (s\<lparr>tasks := dict_set (tasks s) tid ?task'\<rparr>)))"
      by (rule finish_micro [OF Some True]) simp_all
    then have 1: "micro okA okT s s1" by (simp add: rel)
    show ?thesis
    proof (cases x)
      case (Inl e)
      then show ?thesis using Some True rel 1 by (simp add: fail_task_def Let_def)
    next
      case (Inr u)
      have 2: "micro okA okT s1
                 (emit_event ''task_failed'' [(''task_id'', Some tid), (''reason'', r)] s1)"
        by (rule emit_event_micro)
      have eq: "snd (fail_task tid r s)
              = emit_event ''task_failed'' [(''task_id'', Some tid), (''reason'', r)] s1"
        using Some True rel Inr by (simp add: fail_task_def Let_def)
      have "(micro okA okT)\<^sup>*\<^sup>* s
              (emit_event ''task_failed'' [(''task_id'', Some tid), (''reason'', r)] s1)"
        using 1 2 by (rule micro_two_steps)
      then show ?thesis by (simp only: eq)
    qed
  qed
qed

lemma remove_agent_loop_micro:
  "(micro okA okT)\<^sup>*\<^sup>* s (snd (remove_agent_loop k i s))"
proof (induction k i s rule: remove_agent_loop.induct)
  case (1 k i s)
  show ?case
  proof (cases "dict_get (agents s) k")
    case None
    then have "remove_agent_loop k i s = (Inr (), s)"
      by (subst remove_agent_loop.simps) simp
    then show ?thesis by simp
  next
    case (Some agent)
    show ?thesis
    proof (cases "i < length (current_tasks agent)")
      case False
      then have "remove_agent_loop k i s = (Inr (), s)"
        using Some by (subst remove_agent_loop.simps) simp
      then show ?thesis by simp
    next
      case True
      obtain x s' where r: "reassign_task (current_tasks agent ! i) s = (x, s')"
        by (cases "reassign_task (current_tasks agent ! i) s")
      have mem: "(k, agent) \<in> set (agents s)" using Some by (rule dict_get_SomeD)
      have "current_tasks agent ! i \<in> set (current_tasks agent)" using True by simp
      with mem have "micro okA okT s (snd (reassign_task (current_tasks agent ! i) s))"
        by (rule m_reassign)
      then have st: "micro okA okT s s'" by (simp add: r)
      show ?thesis
      proof (cases x)
        case (Inl e)
        have "remove_agent_loop k i s = (Inl e, s')"
          using Some True r Inl by (subst remove_agent_loop.simps) simp
        then show ?thesis using st by simp
      next
        case (Inr u)
        have ih: "(micro okA okT)\<^sup>*\<^sup>* s' (snd (remove_agent_loop k (Suc i) s'))"
          by (rule "1.IH" [OF Some True r [symmetric] Inr])
        have "remove_agent_loop k i s = remove_agent_loop k (Suc i) s'"
          using Some True r Inr by (subst remove_agent_loop.simps) simp
        then show ?thesis using st ih by (simp add: converse_rtranclp_into_rtranclp)
      qed
    qed
  qed
qed

lemma remove_agent_micro: "(micro okA okT)\<^sup>*\<^sup>* s (snd (remove_agent k s))"
proof (cases "dict_get (agents s) k")
  case None
  then show ?thesis by (simp add: remove_agent_def)
next
  case (Some agent)
  obtain x s' where l: "remove_agent_loop k 0 s = (x, s')"
    by (cases "remove_agent_loop k 0 s")
  have 1: "(micro okA okT)\<^sup>*\<^sup>* s s'"
    using remove_agent_loop_micro [of okA okT s k 0] l by simp
  show ?thesis
  proof (cases x)
    case (Inl e)
    then show ?thesis using Some l 1 by (simp add: remove_agent_def)
  next
    case (Inr u)
    let ?s2 = "s'\<lparr>agents := dict_del (agents s') k\<rparr>"
    have 2: "micro okA okT s' ?s2" by (rule m_delete)
    have 3: "micro okA okT ?s2 (emit_event ''agent_removed'' [(''agent_id'', Some k)] ?s2)"
      by (rule emit_event_micro)
    have eq: "snd (remove_agent k s) = emit_event ''agent_removed'' [(''agent_id'', Some k)] ?s2"
      using Some l Inr by (simp add: remove_agent_def)
    have "(micro okA okT)\<^sup>*\<^sup>* s (emit_event ''agent_removed'' [(''agent_id'', Some k)] ?s2)"
      by (rule micro_then_step [OF micro_then_step [OF 1 2] 3])
    then show ?thesis by (simp only: eq)
  qed
qed

lemma add_event_handler_micro: "micro okA okT s (add_event_handler et h s)"
  by (auto simp: add_event_handler_def m_handlers split: option.splits)

lemma perform_micro:
  "admissible okA okT c s \<Longrightarrow> (micro okA okT)\<^sup>*\<^sup>* s (snd (perform c s))"
proof (cases c)
  case (RegisterAgent a)
  then show "admissible okA okT c s \<Longrightarrow> ?thesis" by (simp add: register_agent_micro)
next
  case (RemoveAgent k)
  then show ?thesis by (simp add: remove_agent_micro)
next
  case (SubmitTask t)
  then show "admissible okA okT c s \<Longrightarrow> ?thesis" by (simp add: submit_task_micro)
next
  case (CompleteTask tid r)
  then show ?thesis by (simp add: complete_task_micro)
next
  case (FailTask tid r)
  then show ?thesis by (simp add: fail_task_micro)
next
  case (AddEventHandler et h)
  then show ?thesis by (simp add: add_event_handler_micro r_into_rtranclp)
qed

lemma run_micro:
  "admissible_run okA okT cs s \<Longrightarrow> (micro okA okT)\<^sup>*\<^sup>* s (run cs s)"
proof (induction cs arbitrary: s)
  case Nil
  then show ?case by simp
next
  case (Cons c cs)
  then have "(micro okA okT)\<^sup>*\<^sup>* s (snd (perform c s))"
    and "(micro okA okT)\<^sup>*\<^sup>* (snd (perform c s)) (run cs (snd (perform c s)))"
    by (simp_all add: perform_micro)
  then show ?case by simp
qed

section \<open>Invariants of the registries\<close>

lemma micro_invariant:
  assumes step: "\<And>s s'. P s \<Longrightarrow> micro okA okT s s' \<Longrightarrow> P s'"
    and "P s" and "(micro okA okT)\<^sup>*\<^sup>* s s'"
  shows "P s'"
  using assms(3,2) by (induction rule: rtranclp_induct) (auto intro: step)

lemma admissible_run_static:
  assumes "\<forall>a. RegisterAgent a \<in> set cs \<longrightarrow> okA a"
    and "\<forall>t. SubmitTask t \<in> set cs \<longrightarrow> okT t"
  shows "admissible_run okA (\<lambda>t _. okT t) cs s"
  using assms
proof (induction cs arbitrary: s)
  case Nil
  then show ?case by simp
next
  case (Cons c cs)
  then show ?case by (cases c) auto
qed

lemma update_agent_metrics_only_metrics:
  "\<exists>m. snd (update_agent_metrics b a) = a\<lparr>performance_metrics := m\<rparr>"
  unfolding update_agent_metrics_def Let_def
  by (simp split: option.split sum.split split del: if_split del: dict_set.simps) blast

lemma update_agent_metrics_fields [simp]:
  "current_tasks (snd (update_agent_metrics b a)) = current_tasks a"
  "max_concurrent_tasks (snd (update_agent_metrics b a)) = max_concurrent_tasks a"
  "agent_id (snd (update_agent_metrics b a)) = agent_id a"
  "is_active (snd (update_agent_metrics b a)) = is_active a"
  using update_agent_metrics_only_metrics [of b a] by auto

lemma release_agent_tasks [simp]: "tasks (snd (release_agent tid task b s)) = tasks s"
  by (auto simp: release_agent_def split: option.splits sum.splits prod.splits)

lemma release_agent_queue [simp]: "task_queue (snd (release_agent tid task b s)) = task_queue s"
  by (auto simp: release_agent_def split: option.splits sum.splits prod.splits)

lemma release_agent_agents:
  "agents (snd (release_agent tid task b s)) = agents s
   \<or> (\<exists>aid agent. dict_get (agents s) aid = Some agent \<and> tid \<in> set (current_tasks agent)
        \<and> assigned_agent task = Some aid \<and> aid \<noteq> []
        \<and> agents (snd (release_agent tid task b s))
            = dict_set (agents s) aid
                (snd (update_agent_metrics b (agent\<lparr>current_tasks := remove1 tid (current_tasks agent)\<rparr>))))"
  by (auto simp: release_agent_def list_remove_def split: option.splits sum.splits prod.splits)

lemma reassign_task_cases:
  "snd (reassign_task tid s) = s
   \<or> (\<exists>task. dict_get (tasks s) tid = Some task
        \<and> \<not> truthy (assigned_agent task)
        \<and> snd (reassign_task tid s)
            = s\<lparr>tasks := dict_set (tasks s) tid (task\<lparr>assigned_agent := None, status := PENDING\<rparr>),
                task_queue := task_queue s @ [tid]\<rparr>)
   \<or> (\<exists>task aid agent. dict_get (tasks s) tid = Some task \<and> assigned_agent task = Some aid
        \<and> aid \<noteq> [] \<and> dict_get (agents s) aid = Some agent \<and> tid \<in> set (current_tasks agent)
        \<and> snd (reassign_task tid s)
            = s\<lparr>agents := dict_set (agents s) aid
                            (agent\<lparr>current_tasks := remove1 tid (current_tasks agent)\<rparr>),
                tasks := dict_set (tasks s) tid (task\<lparr>assigned_agent := None, status := PENDING\<rparr>),
                task_queue := task_queue s @ [tid]\<rparr>)"
  by (auto simp: reassign_task_def list_remove_def split: option.splits sum.splits prod.splits)

lemma all_dict_set:
  "\<forall>kv \<in> set d. P (snd kv) \<Longrightarrow> P v \<Longrightarrow> \<forall>kv \<in> set (dict_set d k v). P (snd kv)"
  using set_dict_set_subset [of d k v] by auto

lemma all_dict_del:
  "\<forall>kv \<in> set d. P (snd kv) \<Longrightarrow> \<forall>kv \<in> set (dict_del d k). P (snd kv)"
  by (auto simp: set_dict_del)

lemma within_capacity_remove1:
  "within_capacity a \<Longrightarrow>
   within_capacity (snd (update_agent_metrics b (a\<lparr>current_tasks := remove1 tid (current_tasks a)\<rparr>)))"
  by (auto simp: within_capacity_def length_remove1)

lemma within_capacity_remove1':
  "within_capacity a \<Longrightarrow> within_capacity (a\<lparr>current_tasks := remove1 tid (current_tasks a)\<rparr>)"
  by (auto simp: within_capacity_def length_remove1)

lemma capacity_micro:
  assumes "capacity_respected s" "micro within_capacity okT s s'"
  shows "capacity_respected s'"
  using assms(2,1)
proof (cases rule: micro.cases)
  case (m_register a)
  have "\<forall>ka \<in> set (dict_set (agents s) (agent_id a) a). within_capacity (snd ka)"
    by (rule all_dict_set [where P = within_capacity])
       (use assms(1) m_register(2) in \<open>auto simp: capacity_respected_def\<close>)
  then show ?thesis using m_register(1) by (simp add: capacity_respected_def)
next
  case (m_assign tid task k agent)
  have "within_capacity (agent\<lparr>current_tasks := current_tasks agent @ [task_id task]\<rparr>)"
    using m_assign(6) by (simp add: within_capacity_def)
  then have "\<forall>ka \<in> set (dict_set (agents s) k
                  (agent\<lparr>current_tasks := current_tasks agent @ [task_id task]\<rparr>)).
               within_capacity (snd ka)"
    using assms(1) by (intro all_dict_set [where P = within_capacity])
                      (auto simp: capacity_respected_def)
  then show ?thesis using m_assign(1) by (simp add: capacity_respected_def)
next
  case (m_finish tid task task' success)
  let ?s1 = "s\<lparr>tasks := dict_set (tasks s) tid task'\<rparr>"
  from release_agent_agents [of tid task' success ?s1] show ?thesis
  proof
    assume "agents (snd (release_agent tid task' success ?s1)) = agents ?s1"
    then show ?thesis using assms(1) m_finish(1) by (simp add: capacity_respected_def)
  next
    assume "\<exists>aid agent. dict_get (agents ?s1) aid = Some agent \<and> tid \<in> set (current_tasks agent)
        \<and> assigned_agent task' = Some aid \<and> aid \<noteq> []
        \<and> agents (snd (release_agent tid task' success ?s1))
            = dict_set (agents ?s1) aid
                (snd (update_agent_metrics success (agent\<lparr>current_tasks := remove1 tid (current_tasks agent)\<rparr>)))"
    then obtain aid agent where g: "dict_get (agents s) aid = Some agent"
      and eq: "agents (snd (release_agent tid task' success ?s1))
            = dict_set (agents s) aid
                (snd (update_agent_metrics success (agent\<lparr>current_tasks := remove1 tid (current_tasks agent)\<rparr>)))"
      by auto
    from g have "(aid, agent) \<in> set (agents s)" by (rule dict_get_SomeD)
    with assms(1) have "within_capacity agent" by (auto simp: capacity_respected_def)
    then have "\<forall>ka \<in> set (dict_set (agents s) aid
                  (snd (update_agent_metrics success
                          (agent\<lparr>current_tasks := remove1 tid (current_tasks agent)\<rparr>)))).
               within_capacity (snd ka)"
      using assms(1) by (intro all_dict_set [where P = within_capacity] within_capacity_remove1)
                        (auto simp: capacity_respected_def)
    then show ?thesis using m_finish(1) eq by (simp add: capacity_respected_def)
  qed
next
  case (m_reassign k a tid)
  from reassign_task_cases [of tid s] show ?thesis
  proof (elim disjE exE conjE)
    assume "snd (reassign_task tid s) = s"
    then show ?thesis using assms(1) m_reassign(1) by simp
  next
    fix task
    assume "snd (reassign_task tid s)
            = s\<lparr>tasks := dict_set (tasks s) tid (task\<lparr>assigned_agent := None, status := PENDING\<rparr>),
                task_queue := task_queue s @ [tid]\<rparr>"
    then show ?thesis using assms(1) m_reassign(1) by (simp add: capacity_respected_def)
  next
    fix task aid agent
    assume g: "dict_get (agents s) aid = Some agent"
      and eq: "snd (reassign_task tid s)
            = s\<lparr>agents := dict_set (agents s) aid
                            (agent\<lparr>current_tasks := remove1 tid (current_tasks agent)\<rparr>),
                tasks := dict_set (tasks s) tid (task\<lparr>assigned_agent := None, status := PENDING\<rparr>),
                task_queue := task_queue s @ [tid]\<rparr>"
    from g have "(aid, agent) \<in> set (agents s)" by (rule dict_get_SomeD)
    with assms(1) have "within_capacity agent" by (auto simp: capacity_respected_def)
    then have "\<forall>ka \<in> set (dict_set (agents s) aid
                  (agent\<lparr>current_tasks := remove1 tid (current_tasks agent)\<rparr>)).
               within_capacity (snd ka)"
      using assms(1) by (intro all_dict_set [where P = within_capacity] within_capacity_remove1')
                        (auto simp: capacity_respected_def)
    then show ?thesis using m_reassign(1) eq by (simp add: capacity_respected_def)
  qed
next
  case (m_delete k)
  have "\<forall>ka \<in> set (dict_del (agents s) k). within_capacity (snd ka)"
    using assms(1) by (intro all_dict_del [where P = within_capacity])
                      (auto simp: capacity_respected_def)
  then show ?thesis using m_delete by (simp add: capacity_respected_def)
qed (use assms(1) in \<open>simp_all add: capacity_respected_def\<close>)

lemma consistent_micro:
  assumes "all_consistent s" "micro okA (\<lambda>t _. consistent t) s s'"
  shows "all_consistent s'"
  using assms(2,1)
proof (cases rule: micro.cases)
  case (m_store t)
  have "\<forall>kt \<in> set (dict_set (tasks s) (task_id t) t). consistent (snd kt)"
    using assms(1) m_store(2)
    by (intro all_dict_set [where P = consistent]) (auto simp: all_consistent_def)
  then show ?thesis using m_store(1) by (simp add: all_consistent_def)
next
  case (m_assign tid task k agent)
  have "consistent (task\<lparr>assigned_agent := Some (agent_id agent), status := IN_PROGRESS\<rparr>)"
    by (simp add: consistent_def)
  then have "\<forall>kt \<in> set (dict_set (tasks s) tid
                 (task\<lparr>assigned_agent := Some (agent_id agent), status := IN_PROGRESS\<rparr>)).
               consistent (snd kt)"
    using assms(1) by (intro all_dict_set [where P = consistent]) (auto simp: all_consistent_def)
  then show ?thesis using m_assign(1) by (simp add: all_consistent_def)
next
  case (m_finish tid task task' success)
  from m_finish(2) have "(tid, task) \<in> set (tasks s)" by (rule dict_get_SomeD)
  with assms(1) have "consistent task" by (auto simp: all_consistent_def)
  with m_finish(3,4,5) have "consistent task'" by (auto simp: consistent_def)
  then have "\<forall>kt \<in> set (dict_set (tasks s) tid task'). consistent (snd kt)"
    using assms(1) by (intro all_dict_set [where P = consistent]) (auto simp: all_consistent_def)
  then show ?thesis using m_finish(1) by (simp add: all_consistent_def)
next
  case (m_reassign k a tid)
  have new: "consistent (task\<lparr>assigned_agent := None, status := PENDING\<rparr>)" for task
    by (simp add: consistent_def)
  have upd: "\<forall>kt \<in> set (dict_set (tasks s) tid (task\<lparr>assigned_agent := None, status := PENDING\<rparr>)).
               consistent (snd kt)" for task
    using assms(1) new
    by (intro all_dict_set [where P = consistent]) (auto simp: all_consistent_def)
  from reassign_task_cases [of tid s] show ?thesis
  proof (elim disjE exE conjE)
    assume "snd (reassign_task tid s) = s"
    then show ?thesis using assms(1) m_reassign(1) by simp
  next
    fix task
    assume "snd (reassign_task tid s)
            = s\<lparr>tasks := dict_set (tasks s) tid (task\<lparr>assigned_agent := None, status := PENDING\<rparr>),
                task_queue := task_queue s @ [tid]\<rparr>"
    then show ?thesis using upd [of task] m_reassign(1) by (simp add: all_consistent_def)
  next
    fix task aid agent
    assume "snd (reassign_task tid s)
            = s\<lparr>agents := dict_set (agents s) aid
                            (agent\<lparr>current_tasks := remove1 tid (current_tasks agent)\<rparr>),
                tasks := dict_set (tasks s) tid (task\<lparr>assigned_agent := None, status := PENDING\<rparr>),
                task_queue := task_queue s @ [tid]\<rparr>"
    then show ?thesis using upd [of task] m_reassign(1) by (simp add: all_consistent_def)
  qed
qed (use assms(1) in \<open>simp_all add: all_consistent_def\<close>)

lemma capacity_respected_run:
  assumes "\<forall>a. RegisterAgent a \<in> set cs \<longrightarrow> within_capacity a" "capacity_respected s"
  shows "capacity_respected (run cs s)"
proof -
  have "admissible_run within_capacity (\<lambda>t _. True) cs s"
    using assms(1) by (intro admissible_run_static) auto
  then have steps: "(micro within_capacity (\<lambda>t _. True))\<^sup>*\<^sup>* s (run cs s)"
    by (rule run_micro)
  show ?thesis
  proof (rule micro_invariant [where P = capacity_respected, OF _ assms(2) steps])
    fix s1 s2
    assume "capacity_respected s1" "micro within_capacity (\<lambda>t _. True) s1 s2"
    then show "capacity_respected s2" by (rule capacity_micro)
  qed
qed

lemma all_consistent_run:
  assumes "\<forall>t. SubmitTask t \<in> set cs \<longrightarrow> consistent t" "all_consistent s"
  shows "all_consistent (run cs s)"
proof -
  have "admissible_run (\<lambda>_. True) (\<lambda>t _. consistent t) cs s"
    using assms(1) by (intro admissible_run_static) auto
  then have steps: "(micro (\<lambda>_. True) (\<lambda>t _. consistent t))\<^sup>*\<^sup>* s (run cs s)"
    by (rule run_micro)
  show ?thesis
  proof (rule micro_invariant [where P = all_consistent, OF _ assms(2) steps])
    fix s1 s2
    assume "all_consistent s1" "micro (\<lambda>_. True) (\<lambda>t _. consistent t) s1 s2"
    then show "all_consistent s2" by (rule consistent_micro)
  qed
qed

lemma available_agents_under_capacity:
  assumes "assign_task st task (get_available_agents s) = (Some (k, a), st')"
  shows "(k, a) \<in> set (agents s) \<and> is_active a
         \<and> int (length (current_tasks a)) < max_concurrent_tasks a"
  using assign_task_pick [OF assms] by (auto simp: get_available_agents_def)

text \<open>
  Claim C8 (capacity), as amended. From a new manager, after any sequence of public calls
  in which every registered agent arrives holding no more tasks than its capacity (as
  every agent built with the default empty \<open>current_tasks\<close> and a non-negative capacity
  does), every agent in the registry holds at most \<open>max_concurrent_tasks\<close> tasks,
  whether the calls returned or raised. An assignment takes an agent that the strategy
  picked among the available ones, so one that is registered, active and strictly under
  capacity, and appends exactly one task id to its list.
\<close>

theorem capacity_never_exceeded:
  assumes "\<forall>a. RegisterAgent a \<in> set cs
             \<longrightarrow> int (length (current_tasks a)) \<le> max_concurrent_tasks a"
  shows "(\<forall>ka \<in> set (agents (run cs (new_manager strat))).
            int (length (current_tasks (snd ka))) \<le> max_concurrent_tasks (snd ka))
       \<and> (\<forall>s st task tid k a st'.
            assign_task st task (get_available_agents s) = (Some (k, a), st')
            \<longrightarrow> (k, a) \<in> set (agents s) \<and> is_active a
                \<and> int (length (current_tasks a)) < max_concurrent_tasks a
                \<and> dict_get (agents (assign_task_to_agent tid task k a s)) k
                    = Some (a\<lparr>current_tasks := current_tasks a @ [task_id task]\<rparr>))"
proof -
  have "capacity_respected (new_manager strat)"
    by (simp add: capacity_respected_def new_manager_def)
  with assms have "capacity_respected (run cs (new_manager strat))"
    by (intro capacity_respected_run) (auto simp: within_capacity_def)
  moreover have "dict_get (agents (assign_task_to_agent tid task k a s)) k
                    = Some (a\<lparr>current_tasks := current_tasks a @ [task_id task]\<rparr>)"
    for tid task k a s
    by (simp add: assign_task_to_agent_def emit_event_def dict_get_dict_set split: option.splits)
  ultimately show ?thesis
    using available_agents_under_capacity
    by (auto simp: capacity_respected_def within_capacity_def)
qed

theorem capacity_never_exceeded_witness:
  "list_all (\<lambda>c. case c of RegisterAgent a \<Rightarrow>
                      int (length (current_tasks a)) \<le> max_concurrent_tasks a
                  | _ \<Rightarrow> True)
     [RegisterAgent (example_agent ''a1'' 1), SubmitTask (example_task ''t1'' []),
      SubmitTask (example_task ''t2'' [])]
   \<and> list_all (\<lambda>ka. int (length (current_tasks (snd ka))) \<le> max_concurrent_tasks (snd ka))
       (agents one_busy_one_waiting)
   \<and> agent_view one_busy_one_waiting = [(''a1'', [''t1''])]"
proof -
  have h: "\<forall>a. RegisterAgent a \<in> set [RegisterAgent (example_agent ''a1'' 1),
                   SubmitTask (example_task ''t1'' []), SubmitTask (example_task ''t2'' [])]
             \<longrightarrow> int (length (current_tasks a)) \<le> max_concurrent_tasks a"
    by (simp add: example_agent_def)
  have v: "agent_view one_busy_one_waiting = [(''a1'', [''t1''])]" by code_simp
  from capacity_never_exceeded [OF h, of None] v show ?thesis
    by (simp add: one_busy_one_waiting_def list_all_iff example_agent_def)
qed

text \<open>
  Claim C8 as stated fails: \<open>register_agent\<close> stores the agent as it is given, so an
  agent of capacity one that is registered with two task ids in \<open>current_tasks\<close> is
  over capacity in a state reached by one public call.
\<close>

theorem preloaded_agent_exceeds_capacity:
  "map (\<lambda>ka. (fst ka, length (current_tasks (snd ka)), max_concurrent_tasks (snd ka)))
     (agents (run [RegisterAgent ((example_agent ''a1'' 1)\<lparr>current_tasks := [''t1'', ''t2'']\<rparr>)]
                (new_manager None)))
   = [(''a1'', 2, 1)]"
  by code_simp

text \<open>
  Claim C2 (back-reference and status), as amended. From a new manager, after any sequence
  of public calls in which every submitted task is itself consistent when submitted (as
  every task built with the default status and no assigned agent is), every task in the
  registry has no assigned agent if and only if it is pending. So a task in progress
  always has an assigned agent; a completed or failed task keeps the one it had.
\<close>

theorem assigned_agent_unset_iff_pending:
  assumes "\<forall>t. SubmitTask t \<in> set cs \<longrightarrow> (assigned_agent t = None \<longleftrightarrow> status t = PENDING)"
  shows "\<forall>kt \<in> set (tasks (run cs (new_manager strat))).
           (assigned_agent (snd kt) = None \<longleftrightarrow> status (snd kt) = PENDING)"
proof -
  have "all_consistent (new_manager strat)"
    by (simp add: all_consistent_def new_manager_def)
  with assms have "all_consistent (run cs (new_manager strat))"
    by (intro all_consistent_run) (auto simp: consistent_def)
  then show ?thesis by (auto simp: all_consistent_def consistent_def)
qed

theorem assigned_agent_unset_iff_pending_witness:
  "list_all (\<lambda>c. case c of SubmitTask t \<Rightarrow> (assigned_agent t = None) = (status t = PENDING)
                  | _ \<Rightarrow> True)
     [RegisterAgent (example_agent ''a1'' 1), SubmitTask (example_task ''t1'' []),
      SubmitTask (example_task ''t2'' [])]
   \<and> list_all (\<lambda>kt. (assigned_agent (snd kt) = None) = (status (snd kt) = PENDING))
       (tasks one_busy_one_waiting)
   \<and> task_view one_busy_one_waiting = [(''t1'', IN_PROGRESS, Some ''a1''), (''t2'', PENDING, None)]"
proof -
  have h: "\<forall>t. SubmitTask t \<in> set [RegisterAgent (example_agent ''a1'' 1),
                   SubmitTask (example_task ''t1'' []), SubmitTask (example_task ''t2'' [])]
             \<longrightarrow> (assigned_agent t = None \<longleftrightarrow> status t = PENDING)"
    by (auto simp: example_task_def)
  have v: "task_view one_busy_one_waiting
             = [(''t1'', IN_PROGRESS, Some ''a1''), (''t2'', PENDING, None)]" by code_simp
  from assigned_agent_unset_iff_pending [OF h, of None] v show ?thesis
    by (simp add: one_busy_one_waiting_def list_all_iff example_task_def)
qed

text \<open>
  Claim C2 as stated fails: \<open>complete_task\<close> sets the status and leaves
  \<open>assigned_agent\<close> as it was, so a completed task still names its agent.
\<close>

theorem completed_task_keeps_assigned_agent:
  "task_view (run [RegisterAgent (example_agent ''a1'' 1), SubmitTask (example_task ''t1'' []),
                   CompleteTask ''t1'' None] (new_manager None))
   = [(''t1'', COMPLETED, Some ''a1'')]"
  by code_simp

section \<open>The queue drain\<close>

lemma emit_event_fields [simp]:
  "agents (emit_event et d s) = agents s"
  "tasks (emit_event et d s) = tasks s"
  "task_queue (emit_event et d s) = task_queue s"
  "strategy (emit_event et d s) = strategy s"
  "event_handlers (emit_event et d s) = event_handlers s"
  by (auto simp: emit_event_def split: option.splits)

lemma assign_task_to_agent_fields [simp]:
  "tasks (assign_task_to_agent tid task k agent s)
     = dict_set (tasks s) tid (task\<lparr>assigned_agent := Some (agent_id agent), status := IN_PROGRESS\<rparr>)"
  "agents (assign_task_to_agent tid task k agent s)
     = dict_set (agents s) k (agent\<lparr>current_tasks := current_tasks agent @ [task_id task]\<rparr>)"
  "task_queue (assign_task_to_agent tid task k agent s) = task_queue s"
  "strategy (assign_task_to_agent tid task k agent s) = strategy s"
  by (simp_all add: assign_task_to_agent_def)

lemma get_available_agents_strategy [simp]:
  "get_available_agents (s\<lparr>strategy := st\<rparr>) = get_available_agents s"
  by (simp add: get_available_agents_def)

lemma loop_Cons_cases:
  "(dict_get (tasks s) tid = None
      \<and> process_task_queue_loop (tid # q) pr s = (Inl KeyError, s))
   \<or> (\<exists>task. dict_get (tasks s) tid = Some task \<and> status task \<noteq> PENDING
        \<and> process_task_queue_loop (tid # q) pr s = process_task_queue_loop q (pr @ [tid]) s)
   \<or> (\<exists>task strat. dict_get (tasks s) tid = Some task \<and> status task = PENDING
        \<and> assign_task (strategy s) task (get_available_agents s) = (None, strat)
        \<and> process_task_queue_loop (tid # q) pr s
            = process_task_queue_loop q pr (s\<lparr>strategy := strat\<rparr>))
   \<or> (\<exists>task k agent strat. dict_get (tasks s) tid = Some task \<and> status task = PENDING
        \<and> assign_task (strategy s) task (get_available_agents s) = (Some (k, agent), strat)
        \<and> (k, agent) \<in> set (get_available_agents s)
        \<and> process_task_queue_loop (tid # q) pr s
            = process_task_queue_loop q (pr @ [tid])
                (assign_task_to_agent tid task k agent (s\<lparr>strategy := strat\<rparr>)))"
proof (cases "dict_get (tasks s) tid")
  case None
  then show ?thesis by simp
next
  case (Some task)
  note tk = Some
  show ?thesis
  proof (cases "status task = PENDING")
    case False
    then show ?thesis using tk by simp
  next
    case True
    obtain pick strat where a: "assign_task (strategy s) task (get_available_agents s) = (pick, strat)"
      by (cases "assign_task (strategy s) task (get_available_agents s)")
    show ?thesis
    proof (cases pick)
      case None
      then show ?thesis using tk True a by simp
    next
      case (Some ka)
      obtain k agent where ka: "ka = (k, agent)" by (cases ka)
      have "(k, agent) \<in> set (get_available_agents s)"
        using assign_task_pick [OF a [unfolded Some ka]] .
      then show ?thesis using tk True a Some ka by simp
    qed
  qed
qed

lemma advanced_refl [simp]: "advanced t t"
  by (simp add: advanced_def)

lemma advanced_trans: "advanced t t' \<Longrightarrow> advanced t' t'' \<Longrightarrow> advanced t t''"
  by (auto simp: advanced_def)

lemma advanced_not_pending: "advanced t t' \<Longrightarrow> status t \<noteq> PENDING \<Longrightarrow> t' = t"
  by (auto simp: advanced_def)

lemma loop_queue [simp]: "task_queue (snd (process_task_queue_loop q pr s)) = task_queue s"
proof (induction q arbitrary: pr s)
  case Nil
  then show ?case by simp
next
  case (Cons tid q)
  from loop_Cons_cases [of s tid q pr] show ?case
    by (elim disjE exE conjE) (simp_all add: Cons.IH)
qed

lemma loop_task:
  "dict_get (tasks s) k = Some t \<Longrightarrow>
   \<exists>t'. dict_get (tasks (snd (process_task_queue_loop q pr s))) k = Some t' \<and> advanced t t'"
proof (induction q arbitrary: pr s t)
  case Nil
  then show ?case by auto
next
  case (Cons tid q)
  from loop_Cons_cases [of s tid q pr] show ?case
  proof (elim disjE exE conjE)
    assume "process_task_queue_loop (tid # q) pr s = (Inl KeyError, s)"
    then show ?thesis using Cons.prems by auto
  next
    fix task
    assume "process_task_queue_loop (tid # q) pr s = process_task_queue_loop q (pr @ [tid]) s"
    then show ?thesis using Cons.IH [OF Cons.prems] by simp
  next
    fix task strat
    assume "process_task_queue_loop (tid # q) pr s
            = process_task_queue_loop q pr (s\<lparr>strategy := strat\<rparr>)"
    then show ?thesis using Cons.IH [of "s\<lparr>strategy := strat\<rparr>" t pr] Cons.prems by simp
  next
    fix task ak agent strat
    assume tk: "dict_get (tasks s) tid = Some task" and pend: "status task = PENDING"
      and eq: "process_task_queue_loop (tid # q) pr s
            = process_task_queue_loop q (pr @ [tid])
                (assign_task_to_agent tid task ak agent (s\<lparr>strategy := strat\<rparr>))"
    let ?s1 = "assign_task_to_agent tid task ak agent (s\<lparr>strategy := strat\<rparr>)"
    have "\<exists>t1. dict_get (tasks ?s1) k = Some t1 \<and> advanced t t1"
    proof (cases "k = tid")
      case True
      with Cons.prems tk have "t = task" by auto
      then show ?thesis using True pend
        by (auto simp: dict_get_dict_set advanced_def)
    next
      case False
      then show ?thesis using Cons.prems by (simp add: dict_get_dict_set)
    qed
    then obtain t1 where t1: "dict_get (tasks ?s1) k = Some t1" and adv: "advanced t t1"
      by blast
    from Cons.IH [OF t1] obtain t' where
      "dict_get (tasks (snd (process_task_queue_loop q (pr @ [tid]) ?s1))) k = Some t'"
      "advanced t1 t'" by blast
    then show ?thesis using adv eq by (auto intro: advanced_trans)
  qed
qed

lemma loop_untouched:
  "k \<notin> set q \<Longrightarrow> dict_get (tasks (snd (process_task_queue_loop q pr s))) k = dict_get (tasks s) k"
proof (induction q arbitrary: pr s)
  case Nil
  then show ?case by simp
next
  case (Cons tid q)
  then have k: "k \<noteq> tid" "k \<notin> set q" by auto
  from loop_Cons_cases [of s tid q pr] show ?case
    by (elim disjE exE conjE) (simp_all add: Cons.IH [OF k(2)] dict_get_dict_set k(1))
qed

lemma loop_append:
  "process_task_queue_loop (q1 @ q2) pr s
     = (case process_task_queue_loop q1 pr s of
          (Inl e, s1) \<Rightarrow> (Inl e, s1)
        | (Inr pr1, s1) \<Rightarrow> process_task_queue_loop q2 pr1 s1)"
proof (induction q1 arbitrary: pr s)
  case Nil
  then show ?case by simp
next
  case (Cons tid q1)
  from loop_Cons_cases [of s tid "q1 @ q2" pr] loop_Cons_cases [of s tid q1 pr] show ?case
    by (elim disjE exE conjE) (simp_all add: Cons.IH)
qed

lemma loop_no_KeyError:
  "\<forall>tid \<in> set q. dict_get (tasks s) tid \<noteq> None \<Longrightarrow>
   \<exists>ps. fst (process_task_queue_loop q pr s) = Inr ps"
proof (induction q arbitrary: pr s)
  case Nil
  then show ?case by simp
next
  case (Cons tid q)
  then have rest: "\<forall>x \<in> set q. dict_get (tasks s) x \<noteq> None"
    and here: "dict_get (tasks s) tid \<noteq> None" by auto
  from loop_Cons_cases [of s tid q pr] show ?case
  proof (elim disjE exE conjE)
    assume "dict_get (tasks s) tid = None"
    with here show ?thesis by simp
  next
    fix task
    assume "process_task_queue_loop (tid # q) pr s = process_task_queue_loop q (pr @ [tid]) s"
    then show ?thesis using Cons.IH [OF rest] by simp
  next
    fix task strat
    assume "process_task_queue_loop (tid # q) pr s
            = process_task_queue_loop q pr (s\<lparr>strategy := strat\<rparr>)"
    then show ?thesis using Cons.IH [of "s\<lparr>strategy := strat\<rparr>"] rest by simp
  next
    fix task ak agent strat
    assume eq: "process_task_queue_loop (tid # q) pr s
            = process_task_queue_loop q (pr @ [tid])
                (assign_task_to_agent tid task ak agent (s\<lparr>strategy := strat\<rparr>))"
    have "\<forall>x \<in> set q. dict_get (tasks (assign_task_to_agent tid task ak agent
                                             (s\<lparr>strategy := strat\<rparr>))) x \<noteq> None"
      using rest by (simp add: dict_get_dict_set)
    from Cons.IH [OF this] show ?thesis using eq by simp
  qed
qed

lemma loop_processed_mset:
  "process_task_queue_loop q pr s = (Inr ps, s') \<Longrightarrow> mset ps \<subseteq># mset pr + mset q"
proof (induction q arbitrary: pr s)
  case Nil
  then show ?case by simp
next
  case (Cons tid q)
  from loop_Cons_cases [of s tid q pr] show ?case
  proof (elim disjE exE conjE)
    assume "process_task_queue_loop (tid # q) pr s = (Inl KeyError, s)"
    with Cons.prems show ?thesis by simp
  next
    fix task
    assume "process_task_queue_loop (tid # q) pr s = process_task_queue_loop q (pr @ [tid]) s"
    with Cons.prems have "mset ps \<subseteq># mset (pr @ [tid]) + mset q" by (intro Cons.IH) simp
    then show ?thesis by simp
  next
    fix task strat
    assume "process_task_queue_loop (tid # q) pr s
            = process_task_queue_loop q pr (s\<lparr>strategy := strat\<rparr>)"
    with Cons.prems have "mset ps \<subseteq># mset pr + mset q" by (intro Cons.IH) simp
    then show ?thesis
      using subset_mset.order_trans [of "mset ps" "mset pr + mset q" "add_mset tid (mset pr + mset q)"]
      by simp
  next
    fix task ak agent strat
    assume "process_task_queue_loop (tid # q) pr s
            = process_task_queue_loop q (pr @ [tid])
                (assign_task_to_agent tid task ak agent (s\<lparr>strategy := strat\<rparr>))"
    with Cons.prems have "mset ps \<subseteq># mset (pr @ [tid]) + mset q" by (intro Cons.IH) simp
    then show ?thesis by simp
  qed
qed

lemma loop_processed_not_pending:
  "process_task_queue_loop q pr s = (Inr ps, s') \<Longrightarrow> x \<in> set ps \<Longrightarrow>
   x \<in> set pr \<or> (\<exists>t'. dict_get (tasks s') x = Some t' \<and> status t' \<noteq> PENDING)"
proof (induction q arbitrary: pr s)
  case Nil
  then show ?case by simp
next
  case (Cons tid q)
  from loop_Cons_cases [of s tid q pr] show ?case
  proof (elim disjE exE conjE)
    assume "process_task_queue_loop (tid # q) pr s = (Inl KeyError, s)"
    with Cons.prems show ?thesis by simp
  next
    fix task
    assume tk: "dict_get (tasks s) tid = Some task" and np: "status task \<noteq> PENDING"
      and eq: "process_task_queue_loop (tid # q) pr s = process_task_queue_loop q (pr @ [tid]) s"
    from eq Cons.prems(1) have l: "process_task_queue_loop q (pr @ [tid]) s = (Inr ps, s')" by simp
    from Cons.IH [OF l Cons.prems(2)]
    have "x \<in> set pr \<or> x = tid \<or> (\<exists>t'. dict_get (tasks s') x = Some t' \<and> status t' \<noteq> PENDING)"
      by auto
    moreover from loop_task [OF tk, of q "pr @ [tid]"] l np
    have "\<exists>t'. dict_get (tasks s') tid = Some t' \<and> status t' \<noteq> PENDING"
      by (auto dest: advanced_not_pending)
    ultimately show ?thesis by auto
  next
    fix task strat
    assume "process_task_queue_loop (tid # q) pr s
            = process_task_queue_loop q pr (s\<lparr>strategy := strat\<rparr>)"
    with Cons.prems(1) have "process_task_queue_loop q pr (s\<lparr>strategy := strat\<rparr>) = (Inr ps, s')"
      by simp
    from Cons.IH [OF this Cons.prems(2)] show ?thesis .
  next
    fix task ak agent strat
    let ?s1 = "assign_task_to_agent tid task ak agent (s\<lparr>strategy := strat\<rparr>)"
    let ?t1 = "task\<lparr>assigned_agent := Some (agent_id agent), status := IN_PROGRESS\<rparr>"
    assume eq: "process_task_queue_loop (tid # q) pr s
            = process_task_queue_loop q (pr @ [tid]) ?s1"
    from eq Cons.prems(1) have l: "process_task_queue_loop q (pr @ [tid]) ?s1 = (Inr ps, s')" by simp
    from Cons.IH [OF l Cons.prems(2)]
    have "x \<in> set pr \<or> x = tid \<or> (\<exists>t'. dict_get (tasks s') x = Some t' \<and> status t' \<noteq> PENDING)"
      by auto
    moreover have "dict_get (tasks ?s1) tid = Some ?t1" by (simp add: dict_get_dict_set)
    from loop_task [OF this, of q "pr @ [tid]"] l
    have "\<exists>t'. dict_get (tasks s') tid = Some t' \<and> status t' \<noteq> PENDING"
      by (auto dest: advanced_not_pending)
    ultimately show ?thesis by auto
  qed
qed

lemma remove_processed_fields [simp]:
  "tasks (snd (remove_processed ps s)) = tasks s"
  "agents (snd (remove_processed ps s)) = agents s"
  "strategy (snd (remove_processed ps s)) = strategy s"
  by (induction ps arbitrary: s) (auto simp: list_remove_def)

lemma remove_processed_ok:
  "mset ps \<subseteq># mset (task_queue s) \<Longrightarrow> fst (remove_processed ps s) = Inr ()"
proof (induction ps arbitrary: s)
  case Nil
  then show ?case by simp
next
  case (Cons tid ps)
  from Cons.prems have "tid \<in># mset (task_queue s)"
    by (simp add: insert_subset_eq_iff)
  then have mem: "tid \<in> set (task_queue s)" by simp
  from Cons.prems have "mset ps \<subseteq># mset (remove1 tid (task_queue s))"
    by (simp add: insert_subset_eq_iff)
  then have "fst (remove_processed ps (s\<lparr>task_queue := remove1 tid (task_queue s)\<rparr>)) = Inr ()"
    by (intro Cons.IH) simp
  then show ?case using mem by (simp add: list_remove_def)
qed

lemma remove_processed_keeps:
  "x \<in> set (task_queue s) \<Longrightarrow> x \<notin> set ps \<Longrightarrow> x \<in> set (task_queue (snd (remove_processed ps s)))"
proof (induction ps arbitrary: s)
  case Nil
  then show ?case by simp
next
  case (Cons tid ps)
  then have "x \<in> set (remove1 tid (task_queue s))" by (auto simp: in_set_remove1)
  with Cons show ?case by (auto simp: list_remove_def)
qed

lemma process_task_queue_ok:
  assumes "\<forall>tid \<in> set (task_queue s). dict_get (tasks s) tid \<noteq> None"
  shows "fst (process_task_queue s) = Inr ()"
proof -
  from loop_no_KeyError [OF assms, of "[]"] obtain ps s1 where
    l: "process_task_queue_loop (task_queue s) [] s = (Inr ps, s1)"
    by (cases "process_task_queue_loop (task_queue s) [] s") auto
  from loop_processed_mset [OF l] have "mset ps \<subseteq># mset (task_queue s)" by simp
  moreover have "task_queue s1 = task_queue s" using loop_queue [of "task_queue s" "[]" s] l by simp
  ultimately have "fst (remove_processed ps s1) = Inr ()" by (intro remove_processed_ok) simp
  then show ?thesis using l by (simp add: process_task_queue_def)
qed

lemma process_task_queue_task:
  assumes "dict_get (tasks s) k = Some t"
  shows "\<exists>t'. dict_get (tasks (snd (process_task_queue s))) k = Some t' \<and> advanced t t'"
proof -
  obtain r s1 where l: "process_task_queue_loop (task_queue s) [] s = (r, s1)"
    by (cases "process_task_queue_loop (task_queue s) [] s")
  from loop_task [OF assms, of "task_queue s" "[]"] l obtain t' where
    t': "dict_get (tasks s1) k = Some t'" "advanced t t'" by auto
  have "tasks (snd (process_task_queue s)) = tasks s1"
    using l by (cases r) (simp_all add: process_task_queue_def)
  with t' show ?thesis by auto
qed

lemma process_task_queue_still_queued:
  assumes "fst (process_task_queue s) = Inr ()" "k \<in> set (task_queue s)"
    "dict_get (tasks (snd (process_task_queue s))) k = Some t'" "status t' = PENDING"
  shows "k \<in> set (task_queue (snd (process_task_queue s)))"
proof -
  obtain r s1 where l: "process_task_queue_loop (task_queue s) [] s = (r, s1)"
    by (cases "process_task_queue_loop (task_queue s) [] s")
  from assms(1) l obtain ps where r: "r = Inr ps"
    by (cases r) (auto simp: process_task_queue_def)
  have fin: "snd (process_task_queue s) = snd (remove_processed ps s1)"
    using l r by (simp add: process_task_queue_def)
  have "k \<notin> set ps"
  proof
    assume "k \<in> set ps"
    from loop_processed_not_pending [OF l [unfolded r] this]
    obtain t1 where "dict_get (tasks s1) k = Some t1" "status t1 \<noteq> PENDING" by auto
    with assms(3,4) fin show False by simp
  qed
  moreover have "k \<in> set (task_queue s1)"
    using loop_queue [of "task_queue s" "[]" s] l assms(2) by simp
  ultimately show ?thesis unfolding fin by (rule remove_processed_keeps [rotated])
qed

section \<open>Keys of the task registry\<close>

lemma well_keyed_update:
  assumes "well_keyed s" "task_id v = k" "tasks s' = dict_set (tasks s) k v"
    "set (task_queue s') \<subseteq> insert k (set (task_queue s))"
  shows "well_keyed s'"
proof -
  have "\<forall>kt \<in> set (tasks s'). task_id (snd kt) = fst kt"
  proof
    fix kt assume "kt \<in> set (tasks s')"
    then have "kt = (k, v) \<or> kt \<in> set (tasks s)"
      using set_dict_set_subset [of "tasks s" k v] assms(3) by auto
    then show "task_id (snd kt) = fst kt"
      using assms(1,2) by (auto simp: well_keyed_def)
  qed
  moreover have "\<forall>tid \<in> set (task_queue s'). dict_get (tasks s') tid \<noteq> None"
  proof
    fix tid assume "tid \<in> set (task_queue s')"
    then have "tid = k \<or> tid \<in> set (task_queue s)" using assms(4) by auto
    then show "dict_get (tasks s') tid \<noteq> None"
      using assms(1,3) by (auto simp: well_keyed_def dict_get_dict_set)
  qed
  ultimately show ?thesis by (simp add: well_keyed_def)
qed

lemma well_keyed_same_tasks:
  assumes "well_keyed s" "tasks s' = tasks s"
    "\<forall>tid \<in> set (task_queue s'). tid \<in> set (task_queue s) \<or> dict_get (tasks s) tid \<noteq> None"
  shows "well_keyed s'"
  using assms unfolding well_keyed_def by metis

lemma well_keyed_key: "well_keyed s \<Longrightarrow> dict_get (tasks s) k = Some t \<Longrightarrow> task_id t = k"
  using dict_get_SomeD [of "tasks s" k t] by (fastforce simp: well_keyed_def)

lemma well_keyed_micro:
  assumes "well_keyed s" "micro okA okT s s'"
  shows "well_keyed s'"
  using assms(2)
proof (cases rule: micro.cases)
  case (m_trace tr)
  then show ?thesis by (intro well_keyed_same_tasks [OF assms(1)]) simp_all
next
  case (m_strategy st)
  then show ?thesis by (intro well_keyed_same_tasks [OF assms(1)]) simp_all
next
  case (m_handlers eh)
  then show ?thesis by (intro well_keyed_same_tasks [OF assms(1)]) simp_all
next
  case (m_register a)
  then show ?thesis by (intro well_keyed_same_tasks [OF assms(1)]) simp_all
next
  case (m_store t)
  then show ?thesis by (intro well_keyed_update [OF assms(1), of t "task_id t"]) auto
next
  case (m_assign tid task k agent)
  have "task_id task = tid" using assms(1) m_assign(2) by (rule well_keyed_key)
  then show ?thesis using m_assign(1)
    by (intro well_keyed_update [OF assms(1),
          of "task\<lparr>assigned_agent := Some (agent_id agent), status := IN_PROGRESS\<rparr>" tid]) auto
next
  case (m_enqueue k t)
  have "dict_get (tasks s) k \<noteq> None" using m_enqueue(2)
    by (auto simp: dict_get_None_iff intro: rev_image_eqI)
  moreover have "task_id t = k" using assms(1) m_enqueue(2) by (auto simp: well_keyed_def)
  ultimately show ?thesis using m_enqueue(1)
    by (intro well_keyed_same_tasks [OF assms(1)]) auto
next
  case (m_dequeue tid)
  then show ?thesis
    by (intro well_keyed_same_tasks [OF assms(1)]) (auto dest: notin_set_remove1)
next
  case (m_finish tid task task' success)
  have "task_id task = tid" using assms(1) m_finish(2) by (rule well_keyed_key)
  with m_finish(6) have "task_id task' = tid" by simp
  then show ?thesis using m_finish(1)
    by (intro well_keyed_update [OF assms(1), of task' tid]) auto
next
  case (m_reassign k a tid)
  from reassign_task_cases [of tid s] show ?thesis
  proof (elim disjE exE conjE)
    assume "snd (reassign_task tid s) = s"
    then show ?thesis using assms(1) m_reassign(1) by simp
  next
    fix task
    assume tk: "dict_get (tasks s) tid = Some task"
      and eq: "snd (reassign_task tid s)
            = s\<lparr>tasks := dict_set (tasks s) tid (task\<lparr>assigned_agent := None, status := PENDING\<rparr>),
                task_queue := task_queue s @ [tid]\<rparr>"
    have "task_id task = tid" using assms(1) tk by (rule well_keyed_key)
    then show ?thesis using m_reassign(1) eq
      by (intro well_keyed_update [OF assms(1),
            of "task\<lparr>assigned_agent := None, status := PENDING\<rparr>" tid]) auto
  next
    fix task aid agent
    assume tk: "dict_get (tasks s) tid = Some task"
      and eq: "snd (reassign_task tid s)
            = s\<lparr>agents := dict_set (agents s) aid
                            (agent\<lparr>current_tasks := remove1 tid (current_tasks agent)\<rparr>),
                tasks := dict_set (tasks s) tid (task\<lparr>assigned_agent := None, status := PENDING\<rparr>),
                task_queue := task_queue s @ [tid]\<rparr>"
    have "task_id task = tid" using assms(1) tk by (rule well_keyed_key)
    then show ?thesis using m_reassign(1) eq
      by (intro well_keyed_update [OF assms(1),
            of "task\<lparr>assigned_agent := None, status := PENDING\<rparr>" tid]) auto
  qed
next
  case (m_delete k)
  then show ?thesis by (intro well_keyed_same_tasks [OF assms(1)]) simp_all
qed

lemma admissible_run_any: "admissible_run (\<lambda>_. True) (\<lambda>_ _. True) cs s"
proof (induction cs arbitrary: s)
  case Nil
  then show ?case by simp
next
  case (Cons c cs)
  then show ?case by (cases c) auto
qed

lemma well_keyed_run: "well_keyed s \<Longrightarrow> well_keyed (run cs s)"
proof -
  assume wk: "well_keyed s"
  have steps: "(micro (\<lambda>_. True) (\<lambda>_ _. True))\<^sup>*\<^sup>* s (run cs s)"
    using admissible_run_any by (rule run_micro)
  show ?thesis
  proof (rule micro_invariant [where P = well_keyed, OF _ wk steps])
    fix s1 s2
    assume "well_keyed s1" "micro (\<lambda>_. True) (\<lambda>_ _. True) s1 s2"
    then show "well_keyed s2" by (rule well_keyed_micro)
  qed
qed

lemma well_keyed_new: "well_keyed (new_manager strat)"
  by (simp add: well_keyed_def new_manager_def)

section \<open>Submission\<close>

text \<open>
  Claim C7 (dependency gate of \<open>submit_task\<close>). In any state, if some dependency of the
  task is absent from the registry or not completed, \<open>submit_task\<close> returns false and
  the manager is unchanged. In any state reached by public calls, if every dependency is
  in the registry and completed, \<open>submit_task\<close> returns true; what it leaves behind is
  the queue drain applied to the manager with the task stored under its id and its id
  appended to the queue. Afterwards the registry holds, under that id, the task as
  submitted or, when the drain assigned it right away, the task in progress with its agent;
  and a task that is still pending is still in the queue.
\<close>

theorem submit_task_dependency_gate:
  "((\<exists>d \<in> set (dependencies T).
        dict_get (tasks s) d = None
        \<or> (\<exists>t. dict_get (tasks s) d = Some t \<and> status t \<noteq> COMPLETED))
      \<longrightarrow> submit_task T s = (Inr False, s))
   \<and> (s = run cs (new_manager strat)
        \<and> (\<forall>d \<in> set (dependencies T). \<exists>t. dict_get (tasks s) d = Some t \<and> status t = COMPLETED)
      \<longrightarrow> submit_task T s
            = (Inr True,
               snd (process_task_queue
                      (emit_event ''task_submitted'' [(''task_id'', Some (task_id T))]
                         (s\<lparr>tasks := dict_set (tasks s) (task_id T) T,
                            task_queue := task_queue s @ [task_id T]\<rparr>))))
          \<and> (\<exists>T'. dict_get (tasks (snd (submit_task T s))) (task_id T) = Some T'
                 \<and> (T' = T
                     \<or> status T = PENDING
                       \<and> (\<exists>aid. T' = T\<lparr>assigned_agent := Some aid, status := IN_PROGRESS\<rparr>))
                 \<and> (status T' = PENDING
                      \<longrightarrow> task_id T \<in> set (task_queue (snd (submit_task T s))))))"
proof (intro conjI impI)
  assume "\<exists>d \<in> set (dependencies T).
        dict_get (tasks s) d = None
        \<or> (\<exists>t. dict_get (tasks s) d = Some t \<and> status t \<noteq> COMPLETED)"
  then have "\<not> list_all (dependency_met s) (dependencies T)"
    by (fastforce simp: list_all_iff dependency_met_def)
  then show "submit_task T s = (Inr False, s)" by (simp add: submit_task_def)
next
  assume a: "s = run cs (new_manager strat)
        \<and> (\<forall>d \<in> set (dependencies T). \<exists>t. dict_get (tasks s) d = Some t \<and> status t = COMPLETED)"
  let ?s1 = "s\<lparr>tasks := dict_set (tasks s) (task_id T) T,
                task_queue := task_queue s @ [task_id T]\<rparr>"
  let ?s2 = "emit_event ''task_submitted'' [(''task_id'', Some (task_id T))] ?s1"
  from a have met: "list_all (dependency_met s) (dependencies T)"
    by (auto simp: list_all_iff dependency_met_def)
  from a have "well_keyed s" using well_keyed_run [OF well_keyed_new] by simp
  then have "\<forall>tid \<in> set (task_queue ?s2). dict_get (tasks ?s2) tid \<noteq> None"
    by (auto simp: well_keyed_def dict_get_dict_set)
  then have ok: "fst (process_task_queue ?s2) = Inr ()" by (rule process_task_queue_ok)
  obtain r s3 where pq: "process_task_queue ?s2 = (r, s3)"
    by (cases "process_task_queue ?s2")
  with ok have "r = Inr ()" by simp
  with pq met have eq: "submit_task T s = (Inr True, snd (process_task_queue ?s2))"
    by (simp add: submit_task_def)
  show "submit_task T s = (Inr True, snd (process_task_queue ?s2))" by (rule eq)
  have stored: "dict_get (tasks ?s2) (task_id T) = Some T" by (simp add: dict_get_dict_set)
  from process_task_queue_task [OF stored] obtain T' where
    T': "dict_get (tasks (snd (process_task_queue ?s2))) (task_id T) = Some T'" "advanced T T'"
    by blast
  have "status T' = PENDING \<Longrightarrow> task_id T \<in> set (task_queue (snd (process_task_queue ?s2)))"
    by (rule process_task_queue_still_queued [OF ok _ T'(1)]) simp_all
  with T' show "\<exists>T'. dict_get (tasks (snd (submit_task T s))) (task_id T) = Some T'
                 \<and> (T' = T
                     \<or> status T = PENDING
                       \<and> (\<exists>aid. T' = T\<lparr>assigned_agent := Some aid, status := IN_PROGRESS\<rparr>))
                 \<and> (status T' = PENDING
                      \<longrightarrow> task_id T \<in> set (task_queue (snd (submit_task T s))))"
    unfolding eq by (auto simp: advanced_def)
qed

theorem submit_task_dependency_gate_witness:
  "map_option status (dict_get (tasks first_task_running) ''t1'') = Some IN_PROGRESS
   \<and> submit_task (example_task ''t2'' [''t1'']) first_task_running
       = (Inr False, first_task_running)
   \<and> map_option status (dict_get (tasks first_task_done) ''t1'') = Some COMPLETED
   \<and> fst (submit_task (example_task ''t2'' [''t1'']) first_task_done) = Inr True
   \<and> task_view (snd (submit_task (example_task ''t2'' [''t1'']) first_task_done))
       = [(''t1'', COMPLETED, Some ''a1''), (''t2'', IN_PROGRESS, Some ''a1'')]"
proof -
  have eA: "map_option status (dict_get (tasks first_task_running) ''t1'') = Some IN_PROGRESS"
    by code_simp
  have eB: "map_option status (dict_get (tasks first_task_done) ''t1'') = Some COMPLETED"
    by code_simp
  have v: "task_view (snd (submit_task (example_task ''t2'' [''t1'']) first_task_done))
       = [(''t1'', COMPLETED, Some ''a1''), (''t2'', IN_PROGRESS, Some ''a1'')]"
    by code_simp
  have hA: "\<exists>d \<in> set (dependencies (example_task ''t2'' [''t1''])).
        dict_get (tasks first_task_running) d = None
        \<or> (\<exists>t. dict_get (tasks first_task_running) d = Some t \<and> status t \<noteq> COMPLETED)"
    using eA by (cases "dict_get (tasks first_task_running) ''t1''") (auto simp: example_task_def)
  have hB: "first_task_done
              = run [RegisterAgent (example_agent ''a1'' 1), SubmitTask (example_task ''t1'' []),
                     CompleteTask ''t1'' None] (new_manager None)
        \<and> (\<forall>d \<in> set (dependencies (example_task ''t2'' [''t1''])).
              \<exists>t. dict_get (tasks first_task_done) d = Some t \<and> status t = COMPLETED)"
    using eB by (cases "dict_get (tasks first_task_done) ''t1''")
                (auto simp: example_task_def first_task_done_def)
  from submit_task_dependency_gate [of "example_task ''t2'' [''t1'']" first_task_running] hA
  have 1: "submit_task (example_task ''t2'' [''t1'']) first_task_running
       = (Inr False, first_task_running)" by blast
  from submit_task_dependency_gate [of "example_task ''t2'' [''t1'']" first_task_done
         "[RegisterAgent (example_agent ''a1'' 1), SubmitTask (example_task ''t1'' []),
           CompleteTask ''t1'' None]" None] hB
  have 2: "fst (submit_task (example_task ''t2'' [''t1'']) first_task_done) = Inr True"
    by (metis fst_conv)
  from eA 1 eB 2 v show ?thesis by blast
qed

section \<open>Completion and dependents\<close>

lemma process_dependent_step_fields [simp]:
  "tasks (process_dependent_step x t s) = tasks s"
  "agents (process_dependent_step x t s) = agents s"
  "strategy (process_dependent_step x t s) = strategy s"
  by (simp_all add: process_dependent_step_def)

lemma process_dependent_fold_fields [simp]:
  "tasks (fold (process_dependent_step x) ts s) = tasks s"
  "agents (fold (process_dependent_step x) ts s) = agents s"
  "strategy (fold (process_dependent_step x) ts s) = strategy s"
  by (induction ts arbitrary: s) simp_all

lemma process_dependent_tasks_fields [simp]:
  "tasks (process_dependent_tasks x s) = tasks s"
  "agents (process_dependent_tasks x s) = agents s"
  "strategy (process_dependent_tasks x s) = strategy s"
  by (simp_all add: process_dependent_tasks_def)

lemma dependents_ready_cong: "tasks s' = tasks s \<Longrightarrow> dependents_ready s' t = dependents_ready s t"
  by (simp add: dependents_ready_def)

lemma process_dependent_step_queue_cases:
  "task_queue (process_dependent_step x t s) = task_queue s
   \<or> task_queue (process_dependent_step x t s) = task_queue s @ [task_id t]"
  unfolding process_dependent_step_def by (cases "dependents_ready s t") simp_all

lemma process_dependent_step_queue:
  "\<exists>added. task_queue (process_dependent_step x t s) = task_queue s @ added"
proof -
  from process_dependent_step_queue_cases [of x t s] show ?thesis
  proof
    assume "task_queue (process_dependent_step x t s) = task_queue s"
    then have "task_queue (process_dependent_step x t s) = task_queue s @ []" by simp
    then show ?thesis by (rule exI)
  next
    assume "task_queue (process_dependent_step x t s) = task_queue s @ [task_id t]"
    then show ?thesis by (rule exI)
  qed
qed

lemma process_dependent_step_mono:
  "k \<in> set (task_queue s) \<Longrightarrow> k \<in> set (task_queue (process_dependent_step x t s))"
  using process_dependent_step_queue_cases [of x t s] by auto

lemma process_dependent_fold_queue:
  "\<exists>added. task_queue (fold (process_dependent_step x) ts s) = task_queue s @ added"
proof (induction ts arbitrary: s)
  case Nil
  have "task_queue (fold (process_dependent_step x) [] s) = task_queue s @ []" by simp
  then show ?case by (rule exI)
next
  case (Cons t ts)
  obtain a1 where 1: "task_queue (process_dependent_step x t s) = task_queue s @ a1"
    using process_dependent_step_queue by blast
  obtain a2 where 2: "task_queue (fold (process_dependent_step x) ts (process_dependent_step x t s))
                     = task_queue (process_dependent_step x t s) @ a2"
    using Cons.IH by blast
  have "task_queue (fold (process_dependent_step x) (t # ts) s) = task_queue s @ (a1 @ a2)"
    using 1 2 by simp
  then show ?case by (rule exI)
qed

lemma process_dependent_step_enqueues:
  assumes "x \<in> set (dependencies t)" "status t = PENDING" "dependents_ready s t"
  shows "task_id t \<in> set (task_queue (process_dependent_step x t s))"
proof (cases "task_id t \<in> set (task_queue s)")
  case True
  then show ?thesis by (rule process_dependent_step_mono)
next
  case False
  with assms have "process_dependent_step x t s = s\<lparr>task_queue := task_queue s @ [task_id t]\<rparr>"
    by (simp add: process_dependent_step_def)
  then show ?thesis by simp
qed

lemma process_dependent_fold_enqueues:
  assumes "x \<in> set (dependencies t)" "status t = PENDING" "dependents_ready s t"
    and "t \<in> set ts \<or> task_id t \<in> set (task_queue s)"
  shows "task_id t \<in> set (task_queue (fold (process_dependent_step x) ts s))"
  using assms(3,4)
proof (induction ts arbitrary: s)
  case Nil
  then show ?case by simp
next
  case (Cons u ts)
  let ?s1 = "process_dependent_step x u s"
  have ready: "dependents_ready ?s1 t"
    using Cons.prems(1) dependents_ready_cong [of ?s1 s t] by simp
  have "t \<in> set ts \<or> task_id t \<in> set (task_queue ?s1)"
  proof (cases "task_id t \<in> set (task_queue s)")
    case True
    then have "task_id t \<in> set (task_queue ?s1)" by (rule process_dependent_step_mono)
    then show ?thesis by simp
  next
    case False
    with Cons.prems(2) have "t = u \<or> t \<in> set ts" by auto
    then show ?thesis
    proof
      assume "t = u"
      then have "task_id t \<in> set (task_queue ?s1)"
        using process_dependent_step_enqueues [OF assms(1,2) Cons.prems(1)] by simp
      then show ?thesis by simp
    qed simp
  qed
  from Cons.IH [OF ready this] show ?case by simp
qed

lemma loop_after_assignment:
  assumes "dict_get (tasks s) y = Some t" "status t \<noteq> PENDING"
  shows "dict_get (tasks (snd (process_task_queue_loop q pr s))) y = Some t"
  using loop_task [OF assms(1), of q pr] assms(2) by (auto dest: advanced_not_pending)

lemma complete_task_returns_True:
  assumes "complete_task x r s = (Inr True, s')"
  shows "\<exists>tx s1. dict_get (tasks s) x = Some tx \<and> status tx = IN_PROGRESS
           \<and> release_agent x (tx\<lparr>status := COMPLETED, result := r\<rparr>) True
                 (s\<lparr>tasks := dict_set (tasks s) x (tx\<lparr>status := COMPLETED, result := r\<rparr>)\<rparr>)
               = (Inr (), s1)
           \<and> process_task_queue
                 (process_dependent_tasks x
                    (emit_event ''task_completed'' [(''task_id'', Some x)] s1))
               = (Inr (), s')"
proof (cases "dict_get (tasks s) x")
  case None
  with assms show ?thesis by (simp add: complete_task_def)
next
  case (Some tx)
  show ?thesis
  proof (cases "status tx = IN_PROGRESS")
    case False
    with assms Some show ?thesis by (simp add: complete_task_def)
  next
    case True
    let ?tx' = "tx\<lparr>status := COMPLETED, result := r\<rparr>"
    obtain u s1 where rel:
      "release_agent x ?tx' True (s\<lparr>tasks := dict_set (tasks s) x ?tx'\<rparr>) = (u, s1)"
      by (cases "release_agent x ?tx' True (s\<lparr>tasks := dict_set (tasks s) x ?tx'\<rparr>)")
    show ?thesis
    proof (cases u)
      case (Inl e)
      with assms Some True rel show ?thesis by (simp add: complete_task_def Let_def)
    next
      case (Inr v)
      let ?s2 = "process_dependent_tasks x
                   (emit_event ''task_completed'' [(''task_id'', Some x)] s1)"
      obtain w s3 where pq: "process_task_queue ?s2 = (w, s3)"
        by (cases "process_task_queue ?s2")
      have "w = Inr () \<and> s3 = s'"
        using assms Some True rel Inr pq by (cases w) (simp_all add: complete_task_def Let_def)
      with pq have "process_task_queue ?s2 = (Inr (), s')" by simp
      with Some True rel Inr show ?thesis by simp
    qed
  qed
qed



section \<open>Tasks held by agents\<close>

lemma terminal_kept_refl: "tasks s' = tasks s \<Longrightarrow> terminal_kept s s'"
  by (simp add: terminal_kept_def)

lemma terminal_kept_trans: "terminal_kept s s1 \<Longrightarrow> terminal_kept s1 s2 \<Longrightarrow> terminal_kept s s2"
  unfolding terminal_kept_def by metis

lemma terminal_kept_update:
  assumes "tasks s' = dict_set (tasks s) tid t'"
    and "\<forall>t. dict_get (tasks s) tid = Some t \<longrightarrow> status t \<noteq> COMPLETED \<and> status t \<noteq> FAILED"
  shows "terminal_kept s s'"
  unfolding terminal_kept_def
proof (intro allI impI)
  fix k t
  assume a: "dict_get (tasks s) k = Some t \<and> (status t = COMPLETED \<or> status t = FAILED)"
  with assms(2) have "k \<noteq> tid" by auto
  with a show "\<exists>t'. dict_get (tasks s') k = Some t' \<and> status t' = status t"
    by (simp add: assms(1) dict_get_dict_set)
qed

lemma holds_ok_frame:
  assumes "holds_ok s k a"
    and "\<forall>tid \<in> set (current_tasks a). dict_get (tasks s') tid = dict_get (tasks s) tid"
  shows "holds_ok s' k a"
  using assms unfolding holds_ok_def by simp

lemma holding_ok_holder:
  assumes "holding_ok s" "(k, a) \<in> set (agents s)" "tid \<in> set (current_tasks a)"
  shows "\<exists>t. dict_get (tasks s) tid = Some t \<and> status t = IN_PROGRESS
             \<and> assigned_agent t = Some k \<and> k \<noteq> [] \<and> dict_get (agents s) k = Some a"
proof -
  from assms(1,2) have h: "holds_ok s k a" and d: "distinct (map fst (agents s))"
    by (auto simp: holding_ok_def)
  from d assms(2) have "dict_get (agents s) k = Some a" by (rule dict_get_distinct)
  with h assms(3) show ?thesis by (auto simp: holds_ok_def)
qed

lemma holding_ok_task_id:
  assumes "holding_ok s" "dict_get (tasks s) tid = Some t"
  shows "task_id t = tid"
  using assms dict_get_SomeD [of "tasks s" tid t] by (fastforce simp: holding_ok_def)

lemma holding_ok_same:
  assumes "holding_ok s" "agents s' = agents s" "tasks s' = tasks s"
  shows "holding_ok s'"
  using assms by (simp add: holding_ok_def holds_ok_def)

lemma holding_ok_tasks_update:
  assumes J: "holding_ok s" and ag: "agents s' = agents s"
    and tk: "tasks s' = dict_set (tasks s) tid t'" and id: "task_id t' = tid"
    and free: "\<forall>ka \<in> set (agents s). tid \<notin> set (current_tasks (snd ka))"
  shows "holding_ok s'"
  unfolding holding_ok_def
proof (intro conjI ballI)
  show "distinct (map fst (agents s'))" using J ag by (simp add: holding_ok_def)
next
  fix ka assume ka: "ka \<in> set (agents s')"
  with J ag have h: "holds_ok s (fst ka) (snd ka)" by (simp add: holding_ok_def)
  from ka ag free have "tid \<notin> set (current_tasks (snd ka))" by simp
  then have "\<forall>x \<in> set (current_tasks (snd ka)). dict_get (tasks s') x = dict_get (tasks s) x"
    by (auto simp: tk dict_get_dict_set)
  with h show "holds_ok s' (fst ka) (snd ka)" by (rule holds_ok_frame)
next
  fix kt assume "kt \<in> set (tasks s')"
  then have "kt = (tid, t') \<or> kt \<in> set (tasks s)"
    using set_dict_set_subset [of "tasks s" tid t'] tk by auto
  then show "task_id (snd kt) = fst kt" using J id by (auto simp: holding_ok_def)
qed

lemma holding_ok_both_update:
  assumes J: "holding_ok s"
    and ag: "agents s' = dict_set (agents s) aid a'"
    and tk: "tasks s' = dict_set (tasks s) tid t'" and id: "task_id t' = tid"
    and old: "dict_get (agents s) aid = Some a0"
    and a': "agent_id a' = aid" "distinct (current_tasks a')"
    and held: "\<forall>x \<in> set (current_tasks a').
                 (x = tid \<and> status t' = IN_PROGRESS \<and> assigned_agent t' = Some aid)
                 \<or> (x \<noteq> tid \<and> x \<in> set (current_tasks a0))"
    and free: "\<forall>ka \<in> set (agents s). fst ka \<noteq> aid \<longrightarrow> tid \<notin> set (current_tasks (snd ka))"
  shows "holding_ok s'"
  unfolding holding_ok_def
proof (intro conjI ballI)
  show "distinct (map fst (agents s'))"
    using J ag by (simp add: holding_ok_def distinct_dict_set)
next
  fix kt assume "kt \<in> set (tasks s')"
  then have "kt = (tid, t') \<or> kt \<in> set (tasks s)"
    using set_dict_set_subset [of "tasks s" tid t'] tk by auto
  then show "task_id (snd kt) = fst kt" using J id by (auto simp: holding_ok_def)
next
  fix ka assume ka: "ka \<in> set (agents s')"
  from J have d: "distinct (map fst (agents s))" by (simp add: holding_ok_def)
  from old have mem0: "(aid, a0) \<in> set (agents s)" by (rule dict_get_SomeD)
  with J have h0: "holds_ok s aid a0" by (auto simp: holding_ok_def)
  obtain kk aa where kaeq: "ka = (kk, aa)" by (cases ka)
  from ka have "(kk, aa) \<in> set (dict_set (agents s) aid a')" by (simp add: ag kaeq)
  then have "(kk = aid \<and> aa = a') \<or> (kk \<noteq> aid \<and> (kk, aa) \<in> set (agents s))"
    by (simp only: dict_set_mem_distinct [OF d])
  then have "(fst ka = aid \<and> snd ka = a') \<or> (fst ka \<noteq> aid \<and> (fst ka, snd ka) \<in> set (agents s))"
    by (simp add: kaeq)
  then show "holds_ok s' (fst ka) (snd ka)"
  proof
    assume new: "fst ka = aid \<and> snd ka = a'"
    have "\<exists>t. dict_get (tasks s') x = Some t \<and> status t = IN_PROGRESS
               \<and> assigned_agent t = Some aid" if "x \<in> set (current_tasks a')" for x
    proof (cases "x = tid")
      case True
      with held that show ?thesis by (auto simp: tk dict_get_dict_set)
    next
      case False
      with held that have "x \<in> set (current_tasks a0)" by auto
      with h0 False show ?thesis by (auto simp: holds_ok_def tk dict_get_dict_set)
    qed
    with new a' h0 show ?thesis by (auto simp: holds_ok_def)
  next
    assume other: "fst ka \<noteq> aid \<and> (fst ka, snd ka) \<in> set (agents s)"
    with J have h: "holds_ok s (fst ka) (snd ka)" by (auto simp: holding_ok_def)
    from other free have "tid \<notin> set (current_tasks (snd ka))" by force
    then have "\<forall>x \<in> set (current_tasks (snd ka)). dict_get (tasks s') x = dict_get (tasks s) x"
      by (auto simp: tk dict_get_dict_set)
    with h show ?thesis by (rule holds_ok_frame)
  qed
qed

lemma release_agent_cases:
  "(\<not> truthy (assigned_agent task) \<and> snd (release_agent tid task b s) = s)
   \<or> (\<exists>aid. assigned_agent task = Some aid \<and> aid \<noteq> [] \<and> dict_get (agents s) aid = None
         \<and> snd (release_agent tid task b s) = s)
   \<or> (\<exists>aid agent. assigned_agent task = Some aid \<and> aid \<noteq> []
         \<and> dict_get (agents s) aid = Some agent \<and> tid \<notin> set (current_tasks agent)
         \<and> snd (release_agent tid task b s) = s)
   \<or> (\<exists>aid agent. assigned_agent task = Some aid \<and> aid \<noteq> []
         \<and> dict_get (agents s) aid = Some agent \<and> tid \<in> set (current_tasks agent)
         \<and> snd (release_agent tid task b s)
             = s\<lparr>agents := dict_set (agents s) aid
                    (snd (update_agent_metrics b
                            (agent\<lparr>current_tasks := remove1 tid (current_tasks agent)\<rparr>)))\<rparr>)"
  by (auto simp: release_agent_def list_remove_def split: option.splits sum.splits prod.splits)

lemma new_id_None: "new_id t s \<Longrightarrow> dict_get (tasks s) (task_id t) = None"
  by (simp add: new_id_def dict_keys_def dict_get_None_iff)

lemma holding_ok_free_others:
  assumes "holding_ok s" "dict_get (tasks s) tid = Some t" "assigned_agent t = Some aid"
  shows "\<forall>ka \<in> set (agents s). fst ka \<noteq> aid \<longrightarrow> tid \<notin> set (current_tasks (snd ka))"
proof (intro ballI impI notI)
  fix ka assume "ka \<in> set (agents s)" "fst ka \<noteq> aid" "tid \<in> set (current_tasks (snd ka))"
  then have "(fst ka, snd ka) \<in> set (agents s)" by simp
  from holding_ok_holder [OF assms(1) this \<open>tid \<in> set (current_tasks (snd ka))\<close>] assms(2,3)
  have "fst ka = aid" by auto
  with \<open>fst ka \<noteq> aid\<close> show False by simp
qed

lemma holding_ok_free_all:
  assumes "holding_ok s"
    and "\<forall>t. dict_get (tasks s) tid = Some t \<longrightarrow> status t \<noteq> IN_PROGRESS"
  shows "\<forall>ka \<in> set (agents s). tid \<notin> set (current_tasks (snd ka))"
proof (intro ballI notI)
  fix ka assume "ka \<in> set (agents s)" "tid \<in> set (current_tasks (snd ka))"
  then have "(fst ka, snd ka) \<in> set (agents s)" by simp
  from holding_ok_holder [OF assms(1) this \<open>tid \<in> set (current_tasks (snd ka))\<close>] assms(2)
  show False by auto
qed

lemma holding_ok_register:
  assumes "holding_ok s" "fresh_agent a"
  shows "holding_ok (s\<lparr>agents := dict_set (agents s) (agent_id a) a\<rparr>)"
  unfolding holding_ok_def
proof (intro conjI ballI)
  show "distinct (map fst (agents (s\<lparr>agents := dict_set (agents s) (agent_id a) a\<rparr>)))"
    using assms(1) by (simp add: holding_ok_def distinct_dict_set)
next
  fix kt assume "kt \<in> set (tasks (s\<lparr>agents := dict_set (agents s) (agent_id a) a\<rparr>))"
  then show "task_id (snd kt) = fst kt" using assms(1) by (simp add: holding_ok_def)
next
  fix ka assume "ka \<in> set (agents (s\<lparr>agents := dict_set (agents s) (agent_id a) a\<rparr>))"
  then have "ka = (agent_id a, a) \<or> ka \<in> set (agents s)"
    using set_dict_set_subset [of "agents s" "agent_id a" a] by auto
  then show "holds_ok (s\<lparr>agents := dict_set (agents s) (agent_id a) a\<rparr>) (fst ka) (snd ka)"
  proof
    assume "ka = (agent_id a, a)"
    then show ?thesis using assms(2) by (simp add: holds_ok_def fresh_agent_def)
  next
    assume "ka \<in> set (agents s)"
    with assms(1) have "holds_ok s (fst ka) (snd ka)" by (simp add: holding_ok_def)
    then show ?thesis by (simp add: holds_ok_def)
  qed
qed

lemma holding_ok_delete:
  assumes "holding_ok s"
  shows "holding_ok (s\<lparr>agents := dict_del (agents s) k\<rparr>)"
  unfolding holding_ok_def
proof (intro conjI ballI)
  show "distinct (map fst (agents (s\<lparr>agents := dict_del (agents s) k\<rparr>)))"
    using assms by (simp add: holding_ok_def distinct_dict_del)
next
  fix kt assume "kt \<in> set (tasks (s\<lparr>agents := dict_del (agents s) k\<rparr>))"
  then show "task_id (snd kt) = fst kt" using assms by (simp add: holding_ok_def)
next
  fix ka assume "ka \<in> set (agents (s\<lparr>agents := dict_del (agents s) k\<rparr>))"
  then have "ka \<in> set (agents s)" by (simp add: set_dict_del)
  with assms have "holds_ok s (fst ka) (snd ka)" by (simp add: holding_ok_def)
  then show "holds_ok (s\<lparr>agents := dict_del (agents s) k\<rparr>) (fst ka) (snd ka)"
    by (simp add: holds_ok_def)
qed

lemma holding_micro:
  assumes J: "holding_ok s" and m: "micro fresh_agent new_id s s'"
  shows "holding_ok s' \<and> terminal_kept s s'"
  using m
proof (cases rule: micro.cases)
  case (m_trace tr)
  then show ?thesis using J by (auto intro: holding_ok_same terminal_kept_refl)
next
  case (m_strategy st)
  then show ?thesis using J by (auto intro: holding_ok_same terminal_kept_refl)
next
  case (m_handlers eh)
  then show ?thesis using J by (auto intro: holding_ok_same terminal_kept_refl)
next
  case (m_register a)
  then show ?thesis using J by (auto intro: holding_ok_register terminal_kept_refl)
next
  case (m_store t)
  from m_store(2) have none: "dict_get (tasks s) (task_id t) = None" by (rule new_id_None)
  have "holding_ok s'"
  proof (rule holding_ok_tasks_update [OF J, of s' "task_id t" t])
    show "\<forall>ka \<in> set (agents s). task_id t \<notin> set (current_tasks (snd ka))"
      by (rule holding_ok_free_all [OF J]) (simp add: none)
  qed (simp_all add: m_store(1))
  moreover have "terminal_kept s s'"
    by (rule terminal_kept_update [of s' s "task_id t" t]) (simp_all add: m_store(1) none)
  ultimately show ?thesis by simp
next
  case (m_assign tid task k agent)
  let ?t' = "task\<lparr>assigned_agent := Some (agent_id agent), status := IN_PROGRESS\<rparr>"
  let ?a' = "agent\<lparr>current_tasks := current_tasks agent @ [task_id task]\<rparr>"
  from J have d: "distinct (map fst (agents s))" by (simp add: holding_ok_def)
  from d m_assign(4) have old: "dict_get (agents s) k = Some agent" by (rule dict_get_distinct)
  from J m_assign(4) have h: "holds_ok s k agent" by (auto simp: holding_ok_def)
  have tid: "task_id task = tid" using J m_assign(2) by (rule holding_ok_task_id)
  have free: "\<forall>ka \<in> set (agents s). tid \<notin> set (current_tasks (snd ka))"
    by (rule holding_ok_free_all [OF J]) (simp add: m_assign(2,3))
  with m_assign(4) have notin: "tid \<notin> set (current_tasks agent)" by force
  have "holding_ok s'"
  proof (rule holding_ok_both_update [OF J, of s' k ?a' tid ?t' agent])
    show "agents s' = dict_set (agents s) k ?a'" by (simp add: m_assign(1))
    show "tasks s' = dict_set (tasks s) tid ?t'" by (simp add: m_assign(1))
    show "task_id ?t' = tid" by (simp add: tid)
    show "dict_get (agents s) k = Some agent" by (rule old)
    show "agent_id ?a' = k" using h by (simp add: holds_ok_def)
    show "distinct (current_tasks ?a')" using h notin by (simp add: holds_ok_def tid)
    show "\<forall>x \<in> set (current_tasks ?a').
            (x = tid \<and> status ?t' = IN_PROGRESS \<and> assigned_agent ?t' = Some k)
            \<or> (x \<noteq> tid \<and> x \<in> set (current_tasks agent))"
      using h notin by (auto simp: holds_ok_def tid)
    show "\<forall>ka \<in> set (agents s). fst ka \<noteq> k \<longrightarrow> tid \<notin> set (current_tasks (snd ka))"
      using free by simp
  qed
  moreover have "terminal_kept s s'"
    by (rule terminal_kept_update [of s' s tid ?t']) (simp_all add: m_assign(1,2,3))
  ultimately show ?thesis by simp
next
  case (m_enqueue k t)
  then show ?thesis using J by (auto intro: holding_ok_same terminal_kept_refl)
next
  case (m_dequeue tid)
  then show ?thesis using J by (auto intro: holding_ok_same terminal_kept_refl)
next
  case (m_finish tid task task' success)
  let ?s1 = "s\<lparr>tasks := dict_set (tasks s) tid task'\<rparr>"
  have tid: "task_id task' = tid" using holding_ok_task_id [OF J m_finish(2)] m_finish(6) by simp
  have tk: "tasks s' = dict_set (tasks s) tid task'"
    using release_agent_tasks [of tid task' success ?s1] m_finish(1) by simp
  have T: "terminal_kept s s'"
    by (rule terminal_kept_update [OF tk]) (simp add: m_finish(2,3))
  have free_if: "\<forall>ka \<in> set (agents s). tid \<notin> set (current_tasks (snd ka))"
    if "\<And>k a. (k, a) \<in> set (agents s) \<Longrightarrow> tid \<in> set (current_tasks a)
               \<Longrightarrow> assigned_agent task = Some k \<Longrightarrow> k \<noteq> []
               \<Longrightarrow> dict_get (agents s) k = Some a \<Longrightarrow> False"
  proof (intro ballI notI)
    fix ka assume "ka \<in> set (agents s)" "tid \<in> set (current_tasks (snd ka))"
    then have mem: "(fst ka, snd ka) \<in> set (agents s)" by simp
    from holding_ok_holder [OF J mem \<open>tid \<in> set (current_tasks (snd ka))\<close>] m_finish(2)
    have "assigned_agent task = Some (fst ka)" "fst ka \<noteq> []"
         "dict_get (agents s) (fst ka) = Some (snd ka)" by auto
    with that [OF mem \<open>tid \<in> set (current_tasks (snd ka))\<close>] show False by simp
  qed
  from release_agent_cases [of task' tid success ?s1] have "holding_ok s'"
  proof (elim disjE exE conjE)
    assume nt: "\<not> truthy (assigned_agent task')" and eq: "snd (release_agent tid task' success ?s1) = ?s1"
    have "\<forall>ka \<in> set (agents s). tid \<notin> set (current_tasks (snd ka))"
      by (rule free_if) (use nt m_finish(5) in auto)
    then show ?thesis
      by (intro holding_ok_tasks_update [OF J, of s' tid task']) (simp_all add: m_finish(1) eq tid)
  next
    fix aid
    assume as: "assigned_agent task' = Some aid" and none: "dict_get (agents ?s1) aid = None"
      and eq: "snd (release_agent tid task' success ?s1) = ?s1"
    have "\<forall>ka \<in> set (agents s). tid \<notin> set (current_tasks (snd ka))"
      by (rule free_if) (use as none m_finish(5) in auto)
    then show ?thesis
      by (intro holding_ok_tasks_update [OF J, of s' tid task']) (simp_all add: m_finish(1) eq tid)
  next
    fix aid agent
    assume as: "assigned_agent task' = Some aid" and some: "dict_get (agents ?s1) aid = Some agent"
      and notin: "tid \<notin> set (current_tasks agent)"
      and eq: "snd (release_agent tid task' success ?s1) = ?s1"
    have "\<forall>ka \<in> set (agents s). tid \<notin> set (current_tasks (snd ka))"
      by (rule free_if) (use as some notin m_finish(5) in auto)
    then show ?thesis
      by (intro holding_ok_tasks_update [OF J, of s' tid task']) (simp_all add: m_finish(1) eq tid)
  next
    fix aid and agent :: Agent
    let ?a' = "snd (update_agent_metrics success
                      (agent\<lparr>current_tasks := remove1 tid (current_tasks agent)\<rparr>))"
    assume as: "assigned_agent task' = Some aid" and ne: "aid \<noteq> []"
      and some: "dict_get (agents ?s1) aid = Some agent"
      and isin: "tid \<in> set (current_tasks agent)"
      and eq: "snd (release_agent tid task' success ?s1) = ?s1\<lparr>agents := dict_set (agents ?s1) aid ?a'\<rparr>"
    from some have old: "dict_get (agents s) aid = Some agent" by simp
    then have mem: "(aid, agent) \<in> set (agents s)" by (rule dict_get_SomeD)
    with J have h: "holds_ok s aid agent" by (auto simp: holding_ok_def)
    show ?thesis
    proof (rule holding_ok_both_update [OF J, of s' aid ?a' tid task' agent])
      show "agents s' = dict_set (agents s) aid ?a'" by (simp add: m_finish(1) eq)
      show "tasks s' = dict_set (tasks s) tid task'" by (rule tk)
      show "task_id task' = tid" by (rule tid)
      show "dict_get (agents s) aid = Some agent" by (rule old)
      show "agent_id ?a' = aid" using h by (simp add: holds_ok_def)
      show "distinct (current_tasks ?a')" using h by (simp add: holds_ok_def)
      show "\<forall>x \<in> set (current_tasks ?a').
              (x = tid \<and> status task' = IN_PROGRESS \<and> assigned_agent task' = Some aid)
              \<or> (x \<noteq> tid \<and> x \<in> set (current_tasks agent))"
        using h by (auto simp: holds_ok_def)
      show "\<forall>ka \<in> set (agents s). fst ka \<noteq> aid \<longrightarrow> tid \<notin> set (current_tasks (snd ka))"
        by (rule holding_ok_free_others [OF J m_finish(2)]) (use as m_finish(5) in simp)
    qed
  qed
  with T show ?thesis by simp
next
  case (m_reassign k a tid)
  from holding_ok_holder [OF J m_reassign(2,3)] obtain t where
    t: "dict_get (tasks s) tid = Some t" "status t = IN_PROGRESS" "assigned_agent t = Some k"
       "k \<noteq> []" by blast
  from reassign_task_cases [of tid s] show ?thesis
  proof (elim disjE exE conjE)
    assume "snd (reassign_task tid s) = s"
    then show ?thesis using J m_reassign(1) by (simp add: terminal_kept_refl)
  next
    fix task :: Task
    assume "dict_get (tasks s) tid = Some task" "\<not> truthy (assigned_agent task)"
    with t show ?thesis by simp
  next
    fix task :: Task and aid and agent :: Agent
    let ?t' = "task\<lparr>assigned_agent := None, status := PENDING\<rparr>"
    let ?a' = "agent\<lparr>current_tasks := remove1 tid (current_tasks agent)\<rparr>"
    assume tk: "dict_get (tasks s) tid = Some task" and as: "assigned_agent task = Some aid"
      and old: "dict_get (agents s) aid = Some agent"
      and eq: "snd (reassign_task tid s)
            = s\<lparr>agents := dict_set (agents s) aid ?a',
                tasks := dict_set (tasks s) tid ?t',
                task_queue := task_queue s @ [tid]\<rparr>"
    from old have mem: "(aid, agent) \<in> set (agents s)" by (rule dict_get_SomeD)
    with J have h: "holds_ok s aid agent" by (auto simp: holding_ok_def)
    have tid: "task_id task = tid" using J tk by (rule holding_ok_task_id)
    have "holding_ok s'"
    proof (rule holding_ok_both_update [OF J, of s' aid ?a' tid ?t' agent])
      show "agents s' = dict_set (agents s) aid ?a'" by (simp add: m_reassign(1) eq)
      show "tasks s' = dict_set (tasks s) tid ?t'" by (simp add: m_reassign(1) eq)
      show "task_id ?t' = tid" by (simp add: tid)
      show "dict_get (agents s) aid = Some agent" by (rule old)
      show "agent_id ?a' = aid" using h by (simp add: holds_ok_def)
      show "distinct (current_tasks ?a')" using h by (simp add: holds_ok_def)
      show "\<forall>x \<in> set (current_tasks ?a').
              (x = tid \<and> status ?t' = IN_PROGRESS \<and> assigned_agent ?t' = Some aid)
              \<or> (x \<noteq> tid \<and> x \<in> set (current_tasks agent))"
        using h by (auto simp: holds_ok_def)
      show "\<forall>ka \<in> set (agents s). fst ka \<noteq> aid \<longrightarrow> tid \<notin> set (current_tasks (snd ka))"
        by (rule holding_ok_free_others [OF J tk as])
    qed
    moreover have "terminal_kept s s'"
      by (rule terminal_kept_update [of s' s tid ?t']) (use t tk in \<open>simp_all add: m_reassign(1) eq\<close>)
    ultimately show ?thesis by simp
  qed
next
  case (m_delete k)
  then show ?thesis using J by (auto intro: holding_ok_delete terminal_kept_refl)
qed

lemma run_append: "run (cs1 @ cs2) s = run cs2 (run cs1 s)"
  by (induction cs1 arbitrary: s) simp_all

lemma admissible_run_append:
  "admissible_run okA okT (cs1 @ cs2) s
     \<longleftrightarrow> admissible_run okA okT cs1 s \<and> admissible_run okA okT cs2 (run cs1 s)"
  by (induction cs1 arbitrary: s) auto

lemma holding_steps:
  assumes "(micro fresh_agent new_id)\<^sup>*\<^sup>* s s'" "holding_ok s"
  shows "holding_ok s' \<and> terminal_kept s s'"
  using assms
proof (induction rule: rtranclp_induct)
  case base
  then show ?case by (simp add: terminal_kept_refl)
next
  case (step s1 s2)
  then have 1: "holding_ok s1" "terminal_kept s s1" by auto
  from holding_micro [OF 1(1) step.hyps(2)] have "holding_ok s2" "terminal_kept s1 s2" by auto
  with 1(2) show ?case by (auto intro: terminal_kept_trans)
qed

lemma holding_ok_new: "holding_ok (new_manager strat)"
  by (simp add: holding_ok_def new_manager_def)

text \<open>
  Claim C5 (terminal statuses), as amended. From a new manager, let an orderly sequence of
  calls reach a state in which a task is completed or failed. Whatever orderly calls
  follow, returning or raising, that task is still in the registry with the same status.
\<close>

theorem terminal_status_never_left:
  assumes "orderly (cs1 @ cs2) (new_manager strat)"
    and "dict_get (tasks (run cs1 (new_manager strat))) k = Some t"
    and "status t = COMPLETED \<or> status t = FAILED"
  shows "\<exists>t'. dict_get (tasks (run (cs1 @ cs2) (new_manager strat))) k = Some t'
              \<and> status t' = status t"
proof -
  let ?s0 = "new_manager strat"
  from assms(1) have a1: "admissible_run fresh_agent new_id cs1 ?s0"
    and a2: "admissible_run fresh_agent new_id cs2 (run cs1 ?s0)"
    by (simp_all add: orderly_def admissible_run_append)
  from a1 have "(micro fresh_agent new_id)\<^sup>*\<^sup>* ?s0 (run cs1 ?s0)" by (rule run_micro)
  from holding_steps [OF this holding_ok_new] have J1: "holding_ok (run cs1 ?s0)" by simp
  from a2 have "(micro fresh_agent new_id)\<^sup>*\<^sup>* (run cs1 ?s0) (run cs2 (run cs1 ?s0))"
    by (rule run_micro)
  from holding_steps [OF this J1] have "terminal_kept (run cs1 ?s0) (run (cs1 @ cs2) ?s0)"
    by (simp add: run_append)
  with assms(2,3) show ?thesis unfolding terminal_kept_def by blast
qed

theorem terminal_status_never_left_witness:
  "orderly ([RegisterAgent (example_agent ''a1'' 1), SubmitTask (example_task ''t1'' []),
             CompleteTask ''t1'' None]
            @ [SubmitTask (example_task ''t2'' []), RemoveAgent ''a1'',
               RegisterAgent (example_agent ''a2'' 1), FailTask ''t2'' None])
     (new_manager None)
   \<and> map_option status (dict_get (tasks first_task_done) ''t1'') = Some COMPLETED
   \<and> task_view (run ([RegisterAgent (example_agent ''a1'' 1), SubmitTask (example_task ''t1'' []),
                       CompleteTask ''t1'' None]
                      @ [SubmitTask (example_task ''t2'' []), RemoveAgent ''a1'',
                         RegisterAgent (example_agent ''a2'' 1), FailTask ''t2'' None])
                  (new_manager None))
       = [(''t1'', COMPLETED, Some ''a1''), (''t2'', PENDING, None)]"
proof -
  let ?cs1 = "[RegisterAgent (example_agent ''a1'' 1), SubmitTask (example_task ''t1'' []),
               CompleteTask ''t1'' None]"
  let ?cs2 = "[SubmitTask (example_task ''t2'' []), RemoveAgent ''a1'',
               RegisterAgent (example_agent ''a2'' 1), FailTask ''t2'' None]"
  have o: "orderly (?cs1 @ ?cs2) (new_manager None)" by code_simp
  have e: "map_option status (dict_get (tasks first_task_done) ''t1'') = Some COMPLETED"
    by code_simp
  have v: "task_view (run (?cs1 @ ?cs2) (new_manager None))
             = [(''t1'', COMPLETED, Some ''a1''), (''t2'', PENDING, None)]" by code_simp
  from e obtain t where t: "dict_get (tasks (run ?cs1 (new_manager None))) ''t1'' = Some t"
    "status t = COMPLETED \<or> status t = FAILED"
    by (cases "dict_get (tasks first_task_done) ''t1''") (auto simp: first_task_done_def)
  from terminal_status_never_left [OF o t] o e v show ?thesis by blast
qed

text \<open>
  Claim C5 as stated fails. \<open>submit_task\<close> stores the submitted object under its id
  without looking at the entry it replaces, so a new task with the id of a completed one
  puts a pending entry in its place, which the drain then assigns. The status of a
  completed task is also reset by \<open>remove_agent\<close> when the removed agent was registered
  with the task already in its list, or has the empty string as id (which
  \<open>complete_task\<close> takes for no agent, so that the task stays in the list).
\<close>

theorem resubmission_revives_completed_task:
  "map_option status (dict_get (tasks first_task_done) ''t1'') = Some COMPLETED
   \<and> fst (submit_task (example_task ''t1'' []) first_task_done) = Inr True
   \<and> map_option status
        (dict_get (tasks (snd (submit_task (example_task ''t1'' []) first_task_done))) ''t1'')
       = Some IN_PROGRESS
   \<and> task_view (run [RegisterAgent ((example_agent ''a1'' 1)\<lparr>current_tasks := [''t1'']\<rparr>),
                      RemoveAgent ''a1''] first_task_done)
       = [(''t1'', PENDING, None)]
   \<and> task_view (run [RegisterAgent (example_agent [] 1), SubmitTask (example_task ''t1'' []),
                      CompleteTask ''t1'' None, RemoveAgent []] (new_manager None))
       = [(''t1'', PENDING, None)]"
  by code_simp

end
